theory Spec2Isabelle
  imports Main "HOL-Library.Product_Lexorder"
begin

section \<open>The minesweeper player of minesweeper.py\<close>

text \<open>
  A cell is a pair of Python integers \<open>(i, j)\<close>.  Python sets of cells are HOL sets,
  Python lists are HOL lists, Python integers are \<open>int\<close>.  Every method that mutates
  its object takes the object and returns the updated one.
\<close>

type_synonym cell = "int \<times> int"

subsection \<open>class Sentence\<close>

record sentence =
  cells :: "cell set"
  count :: int

text \<open>\<open>Sentence.known_mines\<close>: \<open>len(self.cells) == self.count\<close> decides.\<close>

definition known_mines :: "sentence \<Rightarrow> cell set" where
  "known_mines S = (if int (card (cells S)) = count S then cells S else {})"

definition known_safes :: "sentence \<Rightarrow> cell set" where
  "known_safes S = (if count S = 0 then cells S else {})"

text \<open>\<open>Sentence.mark_mine\<close> and \<open>Sentence.mark_safe\<close>.\<close>

definition mark_mine :: "sentence \<Rightarrow> cell \<Rightarrow> sentence" where
  "mark_mine S c =
     (if c \<in> cells S then S\<lparr>cells := cells S - {c}, count := count S - 1\<rparr> else S)"

definition mark_safe :: "sentence \<Rightarrow> cell \<Rightarrow> sentence" where
  "mark_safe S c = (if c \<in> cells S then S\<lparr>cells := cells S - {c}\<rparr> else S)"

subsection \<open>class MinesweeperAI\<close>

record ai =
  height :: int
  width :: int
  moves_made :: "cell set"
  mines :: "cell set"
  safes :: "cell set"
  knowledge :: "sentence list"

definition init_ai :: "int \<Rightarrow> int \<Rightarrow> ai" where
  "init_ai h w =
     \<lparr>height = h, width = w, moves_made = {}, mines = {}, safes = {}, knowledge = []\<rparr>"

text \<open>\<open>MinesweeperAI.mark_mine\<close> and \<open>MinesweeperAI.mark_safe\<close>: the cell joins the
  set, and every sentence of the list is updated in place.\<close>

definition ai_mark_mine :: "ai \<Rightarrow> cell \<Rightarrow> ai" where
  "ai_mark_mine s c =
     s\<lparr>mines := insert c (mines s), knowledge := map (\<lambda>S. mark_mine S c) (knowledge s)\<rparr>"

definition ai_mark_safe :: "ai \<Rightarrow> cell \<Rightarrow> ai" where
  "ai_mark_safe s c =
     s\<lparr>safes := insert c (safes s), knowledge := map (\<lambda>S. mark_safe S c) (knowledge s)\<rparr>"

text \<open>The two nested \<open>range\<close> loops around a cell visit these nine positions, in
  this order.\<close>

definition around :: "cell \<Rightarrow> cell list" where
  "around c = List.product [fst c - 1..fst c + 1] [snd c - 1..snd c + 1]"

definition in_bounds :: "int \<Rightarrow> int \<Rightarrow> cell \<Rightarrow> bool" where
  "in_bounds h w p = (0 \<le> fst p \<and> fst p < h \<and> 0 \<le> snd p \<and> snd p < w)"

text \<open>The body of the neighbour loop of \<open>add_knowledge\<close>; the accumulator is
  \<open>(neighbors, already_known_mines)\<close>.\<close>

definition neighbor_step :: "ai \<Rightarrow> cell \<Rightarrow> cell \<Rightarrow> cell set \<times> int \<Rightarrow> cell set \<times> int" where
  "neighbor_step s c p acc =
     (if p = c then acc
      else if in_bounds (height s) (width s) p then
        (if p \<in> mines s then (fst acc, snd acc + 1)
         else if p \<notin> safes s then (insert p (fst acc), snd acc)
         else acc)
      else acc)"

definition scan_neighbors :: "ai \<Rightarrow> cell \<Rightarrow> cell set \<times> int" where
  "scan_neighbors s c = fold (neighbor_step s c) (around c) ({}, 0)"

text \<open>One pass of the \<open>while changed\<close> loop of \<open>update_knowledge\<close>, phase by phase.\<close>

definition collect_step :: "sentence \<Rightarrow> cell set \<times> cell set \<Rightarrow> cell set \<times> cell set" where
  "collect_step S acc =
     (let ms = known_mines S; sf = known_safes S in
      (if ms \<noteq> {} then fst acc \<union> ms else fst acc,
       if sf \<noteq> {} then snd acc \<union> sf else snd acc))"

definition collect_known :: "sentence list \<Rightarrow> cell set \<times> cell set" where
  "collect_known K = fold collect_step K ({}, {})"

definition mine_step :: "cell \<Rightarrow> ai \<times> bool \<Rightarrow> ai \<times> bool" where
  "mine_step m acc = (if m \<notin> mines (fst acc) then (ai_mark_mine (fst acc) m, True) else acc)"

definition safe_step :: "cell \<Rightarrow> ai \<times> bool \<Rightarrow> ai \<times> bool" where
  "safe_step x acc = (if x \<notin> safes (fst acc) then (ai_mark_safe (fst acc) x, True) else acc)"

text \<open>The loops \<open>for mine in new_mines\<close> and \<open>for safe in new_safes\<close> run over a Python
  set; the model visits its elements in ascending order.  The result does not depend on
  the order (lemmas \<open>mark_mines_any_order\<close> and \<open>mark_safes_any_order\<close> below).\<close>

definition mark_new_mines :: "cell set \<Rightarrow> ai \<times> bool \<Rightarrow> ai \<times> bool" where
  "mark_new_mines new_mines acc = fold mine_step (sorted_list_of_set new_mines) acc"

definition mark_new_safes :: "cell set \<Rightarrow> ai \<times> bool \<Rightarrow> ai \<times> bool" where
  "mark_new_safes new_safes acc = fold safe_step (sorted_list_of_set new_safes) acc"

definition remove_empty :: "sentence list \<Rightarrow> sentence list" where
  "remove_empty K = filter (\<lambda>S. cells S \<noteq> {}) K"

text \<open>The body of the double loop over \<open>(sentence1, sentence2)\<close>; the accumulator is
  \<open>(new_sentences, changed)\<close>.\<close>

definition subtract_step ::
  "sentence list \<Rightarrow> sentence \<times> sentence \<Rightarrow> sentence list \<times> bool \<Rightarrow> sentence list \<times> bool" where
  "subtract_step K pr acc =
     (let sentence1 = fst pr; sentence2 = snd pr in
      if sentence1 \<noteq> sentence2 \<and> cells sentence2 \<subseteq> cells sentence1 \<and> cells sentence2 \<noteq> {} then
        (let new_cells = cells sentence1 - cells sentence2;
             new_count = count sentence1 - count sentence2 in
         if new_count \<ge> 0 then
           (let new_sentence = \<lparr>cells = new_cells, count = new_count\<rparr> in
            if new_sentence \<notin> set K \<and> new_sentence \<notin> set (fst acc)
            then (fst acc @ [new_sentence], True)
            else acc)
         else acc)
      else acc)"

definition subtract_all :: "sentence list \<Rightarrow> bool \<Rightarrow> sentence list \<times> bool" where
  "subtract_all K changed = fold (subtract_step K) (List.product K K) ([], changed)"

text \<open>The first two phases of a pass: collect the known mines and safes of every
  sentence, then mark the new ones.\<close>

definition mark_known :: "ai \<Rightarrow> ai \<times> bool" where
  "mark_known s =
     (let known = collect_known (knowledge s);
          marked_m = mark_new_mines (fst known) (s, False)
      in mark_new_safes (snd known) marked_m)"

definition update_pass :: "ai \<Rightarrow> ai \<times> bool" where
  "update_pass s =
     (let marked = mark_known s;
          s1 = fst marked;
          K = remove_empty (knowledge s1);
          sub = subtract_all K (snd marked)
      in (s1\<lparr>knowledge := K @ fst sub\<rparr>, snd sub))"

text \<open>\<open>update_knowledge\<close>: \<open>changed\<close> starts \<open>True\<close>, so the loop body runs at least once
  and is repeated while it reports a change.  A run that never ends is \<open>None\<close>.\<close>

partial_function (option) update_knowledge :: "ai \<Rightarrow> ai option" where
  "update_knowledge s =
     (case update_pass s of (s', changed) \<Rightarrow>
        if changed then update_knowledge s' else Some s')"

declare update_knowledge.simps [code]

text \<open>\<open>add_knowledge\<close> up to its last line: the move is recorded, the cell is marked
  safe, the neighbours are scanned and the new sentence, if it has cells, is appended.\<close>

definition record_clue :: "ai \<Rightarrow> cell \<Rightarrow> int \<Rightarrow> ai" where
  "record_clue s c n =
     (let s1 = ai_mark_safe (s\<lparr>moves_made := insert c (moves_made s)\<rparr>) c;
          scan = scan_neighbors s1 c;
          neighbors = fst scan;
          remaining_count = n - snd scan
      in if neighbors \<noteq> {}
         then s1\<lparr>knowledge := knowledge s1 @ [\<lparr>cells = neighbors, count = remaining_count\<rparr>]\<rparr>
         else s1)"

text \<open>\<open>add_knowledge\<close>: the last line runs \<open>update_knowledge\<close>.\<close>

definition add_knowledge :: "ai \<Rightarrow> cell \<Rightarrow> int \<Rightarrow> ai option" where
  "add_knowledge s c n = update_knowledge (record_clue s c n)"

text \<open>\<open>make_random_move\<close>: \<open>random.choice\<close> indexes the list of possible moves with a
  random number below its length; the number drawn is the parameter \<open>r\<close>.\<close>

definition all_cells :: "int \<Rightarrow> int \<Rightarrow> cell set" where
  "all_cells h w = set (List.product [0..h - 1] [0..w - 1])"

definition possible_moves :: "ai \<Rightarrow> cell list" where
  "possible_moves s =
     sorted_list_of_set (all_cells (height s) (width s) - moves_made s - mines s)"

definition make_random_move :: "ai \<Rightarrow> nat \<Rightarrow> cell option" where
  "make_random_move s r =
     (let pm = possible_moves s in
      if pm \<noteq> [] then Some (pm ! (r mod length pm)) else None)"

subsection \<open>class Minesweeper: the board that answers the clues\<close>

record minesweeper =
  board_height :: int
  board_width :: int
  board :: "bool list list"

text \<open>\<open>self.board[i][j]\<close>, read only for \<open>0 <= i < height\<close> and \<open>0 <= j < width\<close>.\<close>

definition is_mine :: "minesweeper \<Rightarrow> cell \<Rightarrow> bool" where
  "is_mine g c = board g ! nat (fst c) ! nat (snd c)"

definition nearby_step :: "minesweeper \<Rightarrow> cell \<Rightarrow> cell \<Rightarrow> int \<Rightarrow> int" where
  "nearby_step g c p cnt =
     (if p = c then cnt
      else if in_bounds (board_height g) (board_width g) p then
        (if is_mine g p then cnt + 1 else cnt)
      else cnt)"

definition nearby_mines :: "minesweeper \<Rightarrow> cell \<Rightarrow> int" where
  "nearby_mines g c = fold (nearby_step g c) (around c) 0"

subsection \<open>A game: the player is told true clues of a board\<close>

text \<open>The mines of a board, and the in-bounds neighbours of a cell.\<close>

definition placement :: "minesweeper \<Rightarrow> cell set" where
  "placement g = {p. in_bounds (board_height g) (board_width g) p \<and> is_mine g p}"

definition neighbors_of :: "int \<Rightarrow> int \<Rightarrow> cell \<Rightarrow> cell set" where
  "neighbors_of h w c = {p \<in> set (around c). p \<noteq> c \<and> in_bounds h w p}"

text \<open>The board \<open>Minesweeper.__init__\<close> builds has \<open>height\<close> rows of \<open>width\<close> entries.\<close>

definition well_formed :: "minesweeper \<Rightarrow> bool" where
  "well_formed g =
     (length (board g) = nat (board_height g)
      \<and> (\<forall>row \<in> set (board g). length row = nat (board_width g)))"

text \<open>The states of the player in a game on the board \<open>g\<close>: it starts with the size of
  the board and is told the clue of a cell of the board that is not a mine.\<close>

inductive reachable :: "minesweeper \<Rightarrow> ai \<Rightarrow> bool" for g :: minesweeper where
  start: "well_formed g \<Longrightarrow> reachable g (init_ai (board_height g) (board_width g))"
| clue: "reachable g s \<Longrightarrow> in_bounds (board_height g) (board_width g) c \<Longrightarrow> \<not> is_mine g c \<Longrightarrow>
         add_knowledge s c (nearby_mines g c) = Some s' \<Longrightarrow> reachable g s'"

section \<open>Sentences\<close>

lemma mark_mine_cells: "cells (mark_mine S c) = cells S - {c}"
  by (simp add: mark_mine_def)

lemma mark_safe_cells: "cells (mark_safe S c) = cells S - {c}"
  by (simp add: mark_safe_def)

lemma mark_safe_count: "count (mark_safe S c) = count S"
  by (simp add: mark_safe_def)

text \<open>Claim C2.  \<open>known_mines\<close> returns the whole cell set when \<open>count\<close> equals
  the number of cells and the empty set otherwise; \<open>known_safes\<close> returns the whole cell
  set when \<open>count\<close> is 0 and the empty set otherwise.  So the result is the whole cell
  set exactly when the condition holds, the only other case being a sentence without
  cells, whose whole cell set is the empty set.\<close>

theorem known_mines_known_safes_spec:
  "known_mines S = (if count S = int (card (cells S)) then cells S else {})
   \<and> known_safes S = (if count S = 0 then cells S else {})
   \<and> ((known_mines S = cells S) = (count S = int (card (cells S)) \<or> cells S = {}))
   \<and> ((known_safes S = cells S) = (count S = 0 \<or> cells S = {}))"
  by (auto simp: known_mines_def known_safes_def)

text \<open>Claim C8.  \<open>Sentence.mark_mine\<close> on a cell of the sentence removes the cell and
  lowers \<open>count\<close> by exactly 1; marking the same cell again changes nothing; on a cell
  that is not in the sentence it changes nothing.\<close>

theorem sentence_mark_mine_spec:
  "(c \<in> cells S \<longrightarrow>
      c \<notin> cells (mark_mine S c) \<and> cells (mark_mine S c) = cells S - {c}
      \<and> count (mark_mine S c) = count S - 1
      \<and> mark_mine (mark_mine S c) c = mark_mine S c)
   \<and> (c \<notin> cells S \<longrightarrow> mark_mine S c = S)"
  by (simp add: mark_mine_def)

text \<open>The sentence \<open>{(0,0), (0,1)} = 1\<close>, with a cell of it and a cell outside it.\<close>

theorem sentence_mark_mine_witness:
  "(0, 0) \<in> cells \<lparr>cells = {(0, 0), (0, 1)}, count = 1\<rparr>
   \<and> mark_mine \<lparr>cells = {(0, 0), (0, 1)}, count = 1\<rparr> (0, 0) = \<lparr>cells = {(0, 1)}, count = 0\<rparr>
   \<and> mark_mine (mark_mine \<lparr>cells = {(0, 0), (0, 1)}, count = 1\<rparr> (0, 0)) (0, 0)
       = \<lparr>cells = {(0, 1)}, count = 0\<rparr>
   \<and> (1, 1) \<notin> cells \<lparr>cells = {(0, 0), (0, 1)}, count = 1\<rparr>
   \<and> mark_mine \<lparr>cells = {(0, 0), (0, 1)}, count = 1\<rparr> (1, 1) = \<lparr>cells = {(0, 0), (0, 1)}, count = 1\<rparr>"
  using sentence_mark_mine_spec [of "(0, 0)" "\<lparr>cells = {(0, 0), (0, 1)}, count = 1\<rparr>"]
    sentence_mark_mine_spec [of "(1, 1)" "\<lparr>cells = {(0, 0), (0, 1)}, count = 1\<rparr>"]
  by (simp add: mark_mine_def)

text \<open>Claim C10.  \<open>MinesweeperAI.mark_mine\<close> leaves \<open>moves_made\<close> and \<open>safes\<close> (and the
  board size) as they are: it adds the cell to \<open>mines\<close> and applies \<open>Sentence.mark_mine\<close>
  to every sentence.  \<open>MinesweeperAI.mark_safe\<close> likewise leaves \<open>moves_made\<close> and
  \<open>mines\<close> as they are.\<close>

theorem ai_mark_frame:
  "moves_made (ai_mark_mine s c) = moves_made s
   \<and> safes (ai_mark_mine s c) = safes s
   \<and> height (ai_mark_mine s c) = height s
   \<and> width (ai_mark_mine s c) = width s
   \<and> mines (ai_mark_mine s c) = insert c (mines s)
   \<and> knowledge (ai_mark_mine s c) = map (\<lambda>S. mark_mine S c) (knowledge s)
   \<and> moves_made (ai_mark_safe s c) = moves_made s
   \<and> mines (ai_mark_safe s c) = mines s
   \<and> height (ai_mark_safe s c) = height s
   \<and> width (ai_mark_safe s c) = width s
   \<and> safes (ai_mark_safe s c) = insert c (safes s)
   \<and> knowledge (ai_mark_safe s c) = map (\<lambda>S. mark_safe S c) (knowledge s)"
  by (simp add: ai_mark_mine_def ai_mark_safe_def)

section \<open>Move selection\<close>

lemma all_cells_iff: "p \<in> all_cells h w \<longleftrightarrow> in_bounds h w p"
  by (cases p) (auto simp: all_cells_def in_bounds_def)

lemma finite_all_cells: "finite (all_cells h w)"
  by (simp add: all_cells_def)

lemma set_possible_moves:
  "set (possible_moves s) = all_cells (height s) (width s) - moves_made s - mines s"
  by (simp add: possible_moves_def finite_all_cells)

text \<open>Claim C9.  \<open>all_cells\<close> is the set of the cells \<open>(i, j)\<close> with \<open>0 <= i < height\<close> and
  \<open>0 <= j < width\<close>.  Whatever number is drawn, \<open>make_random_move\<close> returns such a cell
  that is neither in \<open>moves_made\<close> nor in \<open>mines\<close> when there is one, and \<open>None\<close> when
  there is none; it never returns a cell outside the board, a cell of \<open>moves_made\<close> or a
  cell of \<open>mines\<close>; and every such cell is returned for some draw.\<close>

theorem make_random_move_spec:
  "all_cells (height s) (width s)
      = {p. 0 \<le> fst p \<and> fst p < height s \<and> 0 \<le> snd p \<and> snd p < width s}
   \<and> ((\<exists>p. 0 \<le> fst p \<and> fst p < height s \<and> 0 \<le> snd p \<and> snd p < width s
            \<and> p \<notin> moves_made s \<and> p \<notin> mines s) \<longrightarrow>
        (\<exists>p. make_random_move s r = Some p
            \<and> 0 \<le> fst p \<and> fst p < height s \<and> 0 \<le> snd p \<and> snd p < width s
            \<and> p \<notin> moves_made s \<and> p \<notin> mines s))
   \<and> ((\<forall>p. 0 \<le> fst p \<and> fst p < height s \<and> 0 \<le> snd p \<and> snd p < width s \<longrightarrow>
            p \<in> moves_made s \<or> p \<in> mines s) \<longrightarrow>
        make_random_move s r = None)
   \<and> (\<forall>p. make_random_move s r = Some p \<longrightarrow>
          0 \<le> fst p \<and> fst p < height s \<and> 0 \<le> snd p \<and> snd p < width s
          \<and> p \<notin> moves_made s \<and> p \<notin> mines s)
   \<and> (\<forall>p. 0 \<le> fst p \<and> fst p < height s \<and> 0 \<le> snd p \<and> snd p < width s
            \<and> p \<notin> moves_made s \<and> p \<notin> mines s \<longrightarrow>
          (\<exists>d. make_random_move s d = Some p))"
proof -
  define free where "free = (\<lambda>p. 0 \<le> fst p \<and> fst p < height s \<and> 0 \<le> snd p \<and> snd p < width s
            \<and> p \<notin> moves_made s \<and> p \<notin> mines s)"
  define pm where "pm = possible_moves s"
  have cells: "all_cells (height s) (width s)
      = {p. 0 \<le> fst p \<and> fst p < height s \<and> 0 \<le> snd p \<and> snd p < width s}"
    using all_cells_iff [of _ "height s" "width s"] by (auto simp: in_bounds_def)
  have set_pm: "set pm = {p. free p}"
    unfolding pm_def set_possible_moves cells free_def by auto
  have mrm: "make_random_move s d = (if pm \<noteq> [] then Some (pm ! (d mod length pm)) else None)"
    for d
    by (simp add: make_random_move_def pm_def Let_def)
  have pick: "free (pm ! (d mod length pm))" if "pm \<noteq> []" for d
  proof -
    from that have "d mod length pm < length pm" by simp
    then have "pm ! (d mod length pm) \<in> set pm" by (rule nth_mem)
    then show ?thesis by (simp add: set_pm)
  qed
  have e: "pm = [] \<longleftrightarrow> (\<forall>p. \<not> free p)"
  proof
    assume "pm = []"
    then have "set pm = {}" by simp
    then show "\<forall>p. \<not> free p" unfolding set_pm by blast
  next
    assume "\<forall>p. \<not> free p"
    then have "set pm = {}" unfolding set_pm by blast
    then show "pm = []" by simp
  qed
  have 1: "(\<exists>p. free p) \<longrightarrow> (\<exists>p. make_random_move s r = Some p \<and> free p)"
    using pick [of r] e by (simp add: mrm)
  have 2: "(\<forall>p. \<not> free p) \<longrightarrow> make_random_move s r = None"
    using e by (simp add: mrm)
  have 3: "\<forall>p. make_random_move s r = Some p \<longrightarrow> free p"
  proof (intro allI impI)
    fix p assume "make_random_move s r = Some p"
    then have "pm \<noteq> []" and "p = pm ! (r mod length pm)"
      by (auto simp: mrm split: if_splits)
    then show "free p" using pick by simp
  qed
  have 4: "\<forall>p. free p \<longrightarrow> (\<exists>d. make_random_move s d = Some p)"
  proof (intro allI impI)
    fix p assume "free p"
    then have "p \<in> set pm" by (simp add: set_pm)
    then obtain i where i: "i < length pm" "pm ! i = p"
      by (auto simp: in_set_conv_nth)
    then have "make_random_move s i = Some p" by (auto simp: mrm)
    then show "\<exists>d. make_random_move s d = Some p" ..
  qed
  have empty: "(\<forall>p. 0 \<le> fst p \<and> fst p < height s \<and> 0 \<le> snd p \<and> snd p < width s \<longrightarrow>
            p \<in> moves_made s \<or> p \<in> mines s) \<longrightarrow> make_random_move s r = None"
  proof
    assume "\<forall>p. 0 \<le> fst p \<and> fst p < height s \<and> 0 \<le> snd p \<and> snd p < width s \<longrightarrow>
            p \<in> moves_made s \<or> p \<in> mines s"
    then have "\<forall>p. \<not> free p" unfolding free_def by blast
    with 2 show "make_random_move s r = None" by simp
  qed
  show ?thesis
    using cells 1 empty 3 4 unfolding free_def by (intro conjI) assumption+
qed

text \<open>A 1 x 2 board with nothing left to play, a 2 x 2 board with two cells left, and a
  2 x 2 board with only (0,1) played, where three cells are free.\<close>

theorem make_random_move_witness:
  "make_random_move \<lparr>height = 1, width = 2, moves_made = {(0, 1)}, mines = {(0, 0)},
        safes = {(0, 1)}, knowledge = []\<rparr> 7 = None
   \<and> make_random_move \<lparr>height = 2, width = 2, moves_made = {(1, 1)}, mines = {(0, 0)},
        safes = {(1, 1)}, knowledge = []\<rparr> 7 \<in> {Some (0, 1), Some (1, 0)}
   \<and> make_random_move \<lparr>height = 2, width = 2, moves_made = {(0, 1)}, mines = {},
        safes = {(0, 1)}, knowledge = []\<rparr> 7 \<in> {Some (0, 0), Some (1, 0), Some (1, 1)}
   \<and> (\<exists>d. make_random_move \<lparr>height = 2, width = 2, moves_made = {(0, 1)}, mines = {},
        safes = {(0, 1)}, knowledge = []\<rparr> d = Some (1, 1))"
proof -
  let ?s1 = "\<lparr>height = 1, width = 2, moves_made = {(0, 1)}, mines = {(0, 0)},
        safes = {(0, 1)}, knowledge = []\<rparr>"
  let ?s2 = "\<lparr>height = 2, width = 2, moves_made = {(1, 1)}, mines = {(0, 0)},
        safes = {(1, 1)}, knowledge = []\<rparr>"
  let ?s3 = "\<lparr>height = 2, width = 2, moves_made = {(0, 1)}, mines = {},
        safes = {(0, 1)}, knowledge = []\<rparr>"
  have grid1: "p = (0, 0) \<or> p = (0, 1)"
    if "0 \<le> fst p" "fst p < 1" "0 \<le> snd p" "snd p < 2" for p :: cell
    using that by (cases p) auto
  have grid2: "p = (0, 0) \<or> p = (0, 1) \<or> p = (1, 0) \<or> p = (1, 1)"
    if "0 \<le> fst p" "fst p < 2" "0 \<le> snd p" "snd p < 2" for p :: cell
    using that by (cases p) auto
  have full: "\<forall>p. 0 \<le> fst p \<and> fst p < height ?s1 \<and> 0 \<le> snd p \<and> snd p < width ?s1 \<longrightarrow>
            p \<in> moves_made ?s1 \<or> p \<in> mines ?s1"
    using grid1 by auto
  have a: "make_random_move ?s1 7 = None"
    using make_random_move_spec [of ?s1 7, THEN conjunct2, THEN conjunct2, THEN conjunct1,
        THEN mp, OF full] .
  have free2: "\<exists>p. 0 \<le> fst p \<and> fst p < height ?s2 \<and> 0 \<le> snd p \<and> snd p < width ?s2
            \<and> p \<notin> moves_made ?s2 \<and> p \<notin> mines ?s2"
    by (rule exI [of _ "(0, 1)"]) simp
  from make_random_move_spec [of ?s2 7, THEN conjunct2, THEN conjunct1, THEN mp, OF free2]
  obtain p where p: "make_random_move ?s2 7 = Some p" "0 \<le> fst p" "fst p < 2" "0 \<le> snd p"
      "snd p < 2" "p \<noteq> (1, 1)" "p \<noteq> (0, 0)" by auto
  have b: "make_random_move ?s2 7 \<in> {Some (0, 1), Some (1, 0)}"
    using grid2 [OF p(2-5)] p(1,6,7) by auto
  have free3: "\<exists>p. 0 \<le> fst p \<and> fst p < height ?s3 \<and> 0 \<le> snd p \<and> snd p < width ?s3
            \<and> p \<notin> moves_made ?s3 \<and> p \<notin> mines ?s3"
    by (rule exI [of _ "(0, 0)"]) simp
  from make_random_move_spec [of ?s3 7, THEN conjunct2, THEN conjunct1, THEN mp, OF free3]
  obtain q where q: "make_random_move ?s3 7 = Some q" "0 \<le> fst q" "fst q < 2" "0 \<le> snd q"
      "snd q < 2" "q \<noteq> (0, 1)" by auto
  have c: "make_random_move ?s3 7 \<in> {Some (0, 0), Some (1, 0), Some (1, 1)}"
    using grid2 [OF q(2-5)] q(1,6) by auto
  have f11: "0 \<le> fst ((1, 1) :: cell) \<and> fst ((1, 1) :: cell) < height ?s3
      \<and> 0 \<le> snd ((1, 1) :: cell) \<and> snd ((1, 1) :: cell) < width ?s3
      \<and> (1, 1) \<notin> moves_made ?s3 \<and> (1, 1) \<notin> mines ?s3" by simp
  have d: "\<exists>d. make_random_move ?s3 d = Some (1, 1)"
    using make_random_move_spec [of ?s3 7, THEN conjunct2, THEN conjunct2, THEN conjunct2,
        THEN conjunct2, THEN spec, of "(1, 1)", THEN mp, OF f11] .
  show ?thesis using a b c d by (intro conjI)
qed

section \<open>The subtraction phase\<close>

text \<open>The candidate of an ordered pair, and the pairs the subtraction accepts.\<close>

definition candidate :: "sentence \<Rightarrow> sentence \<Rightarrow> sentence" where
  "candidate A B = \<lparr>cells = cells A - cells B, count = count A - count B\<rparr>"

definition subtractable :: "sentence \<Rightarrow> sentence \<Rightarrow> bool" where
  "subtractable A B = (A \<noteq> B \<and> cells B \<subseteq> cells A \<and> cells B \<noteq> {})"

lemma subtract_step_eq:
  "subtract_step K (A, B) acc =
     (if subtractable A B \<and> 0 \<le> count A - count B
         \<and> candidate A B \<notin> set K \<and> candidate A B \<notin> set (fst acc)
      then (fst acc @ [candidate A B], True) else acc)"
  by (simp add: subtract_step_def subtractable_def candidate_def Let_def)

lemma fold_subtract_set:
  "set (fst (fold (subtract_step K) ps acc)) =
     set (fst acc) \<union> {candidate A B | A B. (A, B) \<in> set ps \<and> subtractable A B
                         \<and> 0 \<le> count A - count B \<and> candidate A B \<notin> set K}"
proof (induction ps arbitrary: acc)
  case Nil
  then show ?case by simp
next
  case (Cons p ps)
  obtain A B where p: "p = (A, B)" by (cases p)
  show ?case
    unfolding p by (simp add: Cons.IH subtract_step_eq) blast
qed

lemma fold_subtract_distinct:
  "distinct (fst acc) \<Longrightarrow> distinct (fst (fold (subtract_step K) ps acc))"
proof (induction ps arbitrary: acc)
  case Nil
  then show ?case by simp
next
  case (Cons p ps)
  obtain A B where p: "p = (A, B)" by (cases p)
  show ?case
    unfolding p using Cons.prems by (simp add: subtract_step_eq Cons.IH)
qed

lemma fold_subtract_changed:
  "snd (fold (subtract_step K) ps acc) =
     (snd acc \<or> length (fst acc) < length (fst (fold (subtract_step K) ps acc)))
   \<and> length (fst acc) \<le> length (fst (fold (subtract_step K) ps acc))"
proof (induction ps arbitrary: acc)
  case Nil
  then show ?case by simp
next
  case (Cons p ps)
  obtain A B where p: "p = (A, B)" by (cases p)
  let ?acc' = "subtract_step K (A, B) acc"
  have IH: "snd (fold (subtract_step K) ps ?acc') =
     (snd ?acc' \<or> length (fst ?acc') < length (fst (fold (subtract_step K) ps ?acc')))
   \<and> length (fst ?acc') \<le> length (fst (fold (subtract_step K) ps ?acc'))"
    by (rule Cons.IH)
  show ?case
    unfolding p using IH by (auto simp: subtract_step_eq split: if_splits)
qed

lemma set_subtract_all:
  "set (fst (subtract_all K ch)) =
     {candidate A B | A B. A \<in> set K \<and> B \<in> set K \<and> subtractable A B
         \<and> 0 \<le> count A - count B \<and> candidate A B \<notin> set K}"
  by (simp add: subtract_all_def fold_subtract_set)

lemma snd_subtract_all: "snd (subtract_all K ch) = (ch \<or> fst (subtract_all K ch) \<noteq> [])"
  using fold_subtract_changed [of K "List.product K K" "([], ch)"]
  by (simp add: subtract_all_def)

lemma fst_subtract_all_changed: "fst (subtract_all K ch) = fst (subtract_all K ch')"
proof -
  have "fst (fold (subtract_step K) ps (xs, ch)) = fst (fold (subtract_step K) ps (xs, ch'))"
    for ps xs
  proof (induction ps arbitrary: xs ch ch')
    case Nil
    then show ?case by simp
  next
    case (Cons p ps)
    obtain A B where p: "p = (A, B)" by (cases p)
    show ?case unfolding p by (simp add: subtract_step_eq Cons.IH)
  qed
  then show ?thesis by (simp add: subtract_all_def)
qed

text \<open>Claim C3.  Every sentence the subtraction phase appends has a count \<open>>= 0\<close> and is
  the candidate \<open>(A.cells - B.cells, A.count - B.count)\<close> of two different sentences
  \<open>A\<close>, \<open>B\<close> of the list with \<open>B.cells\<close> a non-empty subset of \<open>A.cells\<close>.  A candidate with
  a negative count is not appended; a candidate with a count \<open>>= 0\<close> is in the list or
  appended.  The list after a pass is the pruned list followed by the appended
  sentences.\<close>

theorem subtraction_never_negative:
  "(\<forall>S \<in> set (fst (subtract_all K ch)). 0 \<le> count S
       \<and> (\<exists>A \<in> set K. \<exists>B \<in> set K. A \<noteq> B \<and> cells B \<subseteq> cells A \<and> cells B \<noteq> {}
            \<and> cells S = cells A - cells B \<and> count S = count A - count B))
   \<and> (\<forall>A \<in> set K. \<forall>B \<in> set K.
        A \<noteq> B \<and> cells B \<subseteq> cells A \<and> cells B \<noteq> {} \<and> count A - count B < 0 \<longrightarrow>
        \<lparr>cells = cells A - cells B, count = count A - count B\<rparr> \<notin> set (fst (subtract_all K ch)))
   \<and> (\<forall>A \<in> set K. \<forall>B \<in> set K.
        A \<noteq> B \<and> cells B \<subseteq> cells A \<and> cells B \<noteq> {} \<and> 0 \<le> count A - count B \<longrightarrow>
        \<lparr>cells = cells A - cells B, count = count A - count B\<rparr>
           \<in> set K \<union> set (fst (subtract_all K ch)))
   \<and> knowledge (fst (update_pass s)) =
        remove_empty (knowledge (fst (mark_known s)))
        @ fst (subtract_all (remove_empty (knowledge (fst (mark_known s)))) (snd (mark_known s)))"
proof -
  have 1: "\<forall>S \<in> set (fst (subtract_all K ch)). 0 \<le> count S
       \<and> (\<exists>A \<in> set K. \<exists>B \<in> set K. A \<noteq> B \<and> cells B \<subseteq> cells A \<and> cells B \<noteq> {}
            \<and> cells S = cells A - cells B \<and> count S = count A - count B)"
  proof
    fix S assume "S \<in> set (fst (subtract_all K ch))"
    then obtain A B where AB: "S = candidate A B" "A \<in> set K" "B \<in> set K"
        "subtractable A B" "0 \<le> count A - count B"
      unfolding set_subtract_all by blast
    have "A \<noteq> B \<and> cells B \<subseteq> cells A \<and> cells B \<noteq> {}
            \<and> cells S = cells A - cells B \<and> count S = count A - count B"
      using AB by (simp add: candidate_def subtractable_def)
    then have "\<exists>A \<in> set K. \<exists>B \<in> set K. A \<noteq> B \<and> cells B \<subseteq> cells A \<and> cells B \<noteq> {}
            \<and> cells S = cells A - cells B \<and> count S = count A - count B"
      using AB(2,3) by blast
    moreover have "0 \<le> count S" using AB by (simp add: candidate_def)
    ultimately show "0 \<le> count S
       \<and> (\<exists>A \<in> set K. \<exists>B \<in> set K. A \<noteq> B \<and> cells B \<subseteq> cells A \<and> cells B \<noteq> {}
            \<and> cells S = cells A - cells B \<and> count S = count A - count B)" by simp
  qed
  have 2: "\<forall>A \<in> set K. \<forall>B \<in> set K.
        A \<noteq> B \<and> cells B \<subseteq> cells A \<and> cells B \<noteq> {} \<and> count A - count B < 0 \<longrightarrow>
        \<lparr>cells = cells A - cells B, count = count A - count B\<rparr> \<notin> set (fst (subtract_all K ch))"
  proof (intro ballI impI)
    fix A B :: sentence
    assume "A \<noteq> B \<and> cells B \<subseteq> cells A \<and> cells B \<noteq> {} \<and> count A - count B < 0"
    then have neg: "count \<lparr>cells = cells A - cells B, count = count A - count B\<rparr> < 0" by simp
    show "\<lparr>cells = cells A - cells B, count = count A - count B\<rparr> \<notin> set (fst (subtract_all K ch))"
    proof
      assume "\<lparr>cells = cells A - cells B, count = count A - count B\<rparr> \<in> set (fst (subtract_all K ch))"
      with 1 have "0 \<le> count \<lparr>cells = cells A - cells B, count = count A - count B\<rparr>" by blast
      with neg show False by simp
    qed
  qed
  have 3: "\<forall>A \<in> set K. \<forall>B \<in> set K.
        A \<noteq> B \<and> cells B \<subseteq> cells A \<and> cells B \<noteq> {} \<and> 0 \<le> count A - count B \<longrightarrow>
        \<lparr>cells = cells A - cells B, count = count A - count B\<rparr>
           \<in> set K \<union> set (fst (subtract_all K ch))"
  proof (intro ballI impI)
    fix A B assume A: "A \<in> set K" and B: "B \<in> set K"
      and h: "A \<noteq> B \<and> cells B \<subseteq> cells A \<and> cells B \<noteq> {} \<and> 0 \<le> count A - count B"
    have c: "\<lparr>cells = cells A - cells B, count = count A - count B\<rparr> = candidate A B"
      by (simp add: candidate_def)
    have s: "subtractable A B" using h by (simp add: subtractable_def)
    show "\<lparr>cells = cells A - cells B, count = count A - count B\<rparr>
           \<in> set K \<union> set (fst (subtract_all K ch))"
      unfolding c set_subtract_all using A B s h by blast
  qed
  have 4: "knowledge (fst (update_pass s)) =
        remove_empty (knowledge (fst (mark_known s)))
        @ fst (subtract_all (remove_empty (knowledge (fst (mark_known s)))) (snd (mark_known s)))"
    by (simp add: update_pass_def Let_def)
  show ?thesis by (intro conjI 1 2 3 4)
qed

definition scenario_c :: "sentence list" where
  "scenario_c = [\<lparr>cells = {(0, 0), (0, 1)}, count = 0\<rparr>, \<lparr>cells = {(0, 0), (0, 1), (1, 1)}, count = 0\<rparr>]"

definition too_many :: "sentence list" where
  "too_many = [\<lparr>cells = {(0, 0), (0, 1)}, count = 1\<rparr>, \<lparr>cells = {(0, 0)}, count = 2\<rparr>]"

lemma subtract_scenario_c: "fst (subtract_all scenario_c False) = [\<lparr>cells = {(1, 1)}, count = 0\<rparr>]"
  by code_simp

lemma subtract_too_many: "fst (subtract_all too_many False) = []"
  by code_simp

text \<open>Scenario C of the specification, where the subtraction appends \<open>{(1,1)} = 0\<close>, and a
  list whose only candidate has count \<open>-1\<close>.\<close>

theorem subtraction_never_negative_witness:
  "\<lparr>cells = {(1, 1)}, count = 0\<rparr> \<in> set (fst (subtract_all scenario_c False))
   \<and> 0 \<le> count \<lparr>cells = {(1, 1)}, count = 0\<rparr>
   \<and> \<lparr>cells = {(0, 0), (0, 1)}, count = 1\<rparr> \<in> set too_many
   \<and> \<lparr>cells = {(0, 0)}, count = 2\<rparr> \<in> set too_many
   \<and> \<lparr>cells = {(0, 1)}, count = - 1\<rparr> \<notin> set (fst (subtract_all too_many False))"
proof -
  have a: "\<lparr>cells = {(1, 1)}, count = 0\<rparr> \<in> set (fst (subtract_all scenario_c False))"
    by (simp add: subtract_scenario_c)
  have b: "0 \<le> count \<lparr>cells = {(1, 1)}, count = 0\<rparr>"
    using subtraction_never_negative [of scenario_c False, THEN conjunct1, THEN bspec, OF a]
    by (rule conjunct1)
  have c: "\<lparr>cells = {(0, 0), (0, 1)}, count = 1\<rparr> \<in> set too_many"
    and d: "\<lparr>cells = {(0, 0)}, count = 2\<rparr> \<in> set too_many"
    by (simp_all add: too_many_def)
  have e: "\<lparr>cells = {(0, 0), (0, 1)}, count = 1\<rparr> \<noteq> \<lparr>cells = {(0, 0)}, count = 2\<rparr>
      \<and> cells \<lparr>cells = {(0, 0)}, count = 2\<rparr> \<subseteq> cells \<lparr>cells = {(0, 0), (0, 1)}, count = 1\<rparr>
      \<and> cells \<lparr>cells = {(0, 0)}, count = 2\<rparr> \<noteq> {}
      \<and> count \<lparr>cells = {(0, 0), (0, 1)}, count = 1\<rparr> - count \<lparr>cells = {(0, 0)}, count = 2\<rparr> < 0"
    by simp
  have f: "cells \<lparr>cells = {(0, 0), (0, 1)}, count = 1\<rparr> - cells \<lparr>cells = {(0, 0)}, count = 2\<rparr> = {(0, 1)}"
    by auto
  have "\<lparr>cells = cells \<lparr>cells = {(0, 0), (0, 1)}, count = 1\<rparr> - cells \<lparr>cells = {(0, 0)}, count = 2\<rparr>,
          count = count \<lparr>cells = {(0, 0), (0, 1)}, count = 1\<rparr> - count \<lparr>cells = {(0, 0)}, count = 2\<rparr>\<rparr>
        \<notin> set (fst (subtract_all too_many False))"
    using subtraction_never_negative [of too_many False, THEN conjunct2, THEN conjunct1,
        THEN bspec, OF c, THEN bspec, OF d, THEN mp, OF e] .
  then have g: "\<lparr>cells = {(0, 1)}, count = - 1\<rparr> \<notin> set (fst (subtract_all too_many False))"
    unfolding f by simp
  show ?thesis using a b c d g by simp
qed


text \<open>Claim C5, as amended.  The sentences the subtraction phase appends are pairwise
  different and different from every sentence of the list it ran on.\<close>

theorem subtraction_adds_no_duplicate:
  "distinct (fst (subtract_all K ch)) \<and> set (fst (subtract_all K ch)) \<inter> set K = {}"
proof
  show "distinct (fst (subtract_all K ch))"
    by (simp add: subtract_all_def fold_subtract_distinct)
  show "set (fst (subtract_all K ch)) \<inter> set K = {}"
    unfolding set_subtract_all by auto
qed

section \<open>The marking phases in closed form\<close>

text \<open>Removing a set of new mines, or of new safes, from a sentence in one step.\<close>

definition strike_mines :: "cell set \<Rightarrow> sentence \<Rightarrow> sentence" where
  "strike_mines D S = S\<lparr>cells := cells S - D, count := count S - int (card (cells S \<inter> D))\<rparr>"

definition strike_safes :: "cell set \<Rightarrow> sentence \<Rightarrow> sentence" where
  "strike_safes D S = S\<lparr>cells := cells S - D\<rparr>"

lemma strike_mines_empty: "strike_mines {} S = S"
  by (simp add: strike_mines_def)

lemma strike_safes_empty: "strike_safes {} S = S"
  by (simp add: strike_safes_def)

lemma strike_mines_mark_mine:
  assumes "finite D" "m \<notin> D"
  shows "strike_mines D (mark_mine S m) = strike_mines (insert m D) S"
proof (cases "m \<in> cells S")
  case True
  have c: "cells S - {m} - D = cells S - insert m D" by auto
  have i: "cells S \<inter> insert m D = insert m (cells S \<inter> D)" using True by auto
  have k: "(cells S - {m}) \<inter> D = cells S \<inter> D" using assms by auto
  have "finite (cells S \<inter> D)" and "m \<notin> cells S \<inter> D" using assms by simp_all
  then have n: "card (insert m (cells S \<inter> D)) = Suc (card (cells S \<inter> D))"
    by (rule card_insert_disjoint)
  show ?thesis
    unfolding strike_mines_def mark_mine_def using True by (simp add: c i k n)
next
  case False
  then have i: "cells S \<inter> insert m D = cells S \<inter> D" 
    and c: "cells S - insert m D = cells S - D" by auto
  show ?thesis
    unfolding strike_mines_def mark_mine_def using False by (simp add: i c)
qed

lemma strike_safes_mark_safe: "strike_safes D (mark_safe S x) = strike_safes (insert x D) S"
proof -
  have "cells S - {x} - D = cells S - insert x D" by auto
  moreover have "x \<notin> cells S \<Longrightarrow> cells S - D = cells S - insert x D" by auto
  ultimately show ?thesis by (simp add: strike_safes_def mark_safe_def)
qed

lemma mine_step_old: "m \<in> mines s \<Longrightarrow> mine_step m (s, ch) = (s, ch)"
  by (simp add: mine_step_def)

lemma mine_step_new: "m \<notin> mines s \<Longrightarrow> mine_step m (s, ch) = (ai_mark_mine s m, True)"
  by (simp add: mine_step_def)

lemma safe_step_old: "x \<in> safes s \<Longrightarrow> safe_step x (s, ch) = (s, ch)"
  by (simp add: safe_step_def)

lemma safe_step_new: "x \<notin> safes s \<Longrightarrow> safe_step x (s, ch) = (ai_mark_safe s x, True)"
  by (simp add: safe_step_def)

lemma collect_step_eq:
  "collect_step S acc = (fst acc \<union> known_mines S, snd acc \<union> known_safes S)"
  by (simp add: collect_step_def Let_def)

lemma fold_mine_step:
  "fold mine_step xs (s, ch) =
     (s\<lparr>mines := mines s \<union> set xs,
        knowledge := map (strike_mines (set xs - mines s)) (knowledge s)\<rparr>,
      ch \<or> \<not> set xs \<subseteq> mines s)"
proof (induction xs arbitrary: s ch)
  case Nil
  have "map (strike_mines {}) (knowledge s) = knowledge s"
    by (simp add: strike_mines_empty map_idI)
  then show ?case by simp
next
  case (Cons m xs)
  show ?case
  proof (cases "m \<in> mines s")
    case True
    then have "set (m # xs) - mines s = set xs - mines s"
      and "mines s \<union> set (m # xs) = mines s \<union> set xs" by auto
    then show ?thesis using True by (simp add: mine_step_old Cons.IH)
  next
    case False
    let ?D = "set xs - insert m (mines s)"
    have D: "finite ?D" "m \<notin> ?D" by auto
    have eq: "insert m ?D = set (m # xs) - mines s" using False by auto
    have "map (strike_mines ?D) (map (\<lambda>S. mark_mine S m) (knowledge s))
            = map (strike_mines (set (m # xs) - mines s)) (knowledge s)"
      using strike_mines_mark_mine [OF D] by (simp add: eq)
    then show ?thesis
      using False by (simp add: mine_step_new Cons.IH ai_mark_mine_def)
  qed
qed

lemma fold_safe_step:
  "fold safe_step xs (s, ch) =
     (s\<lparr>safes := safes s \<union> set xs,
        knowledge := map (strike_safes (set xs - safes s)) (knowledge s)\<rparr>,
      ch \<or> \<not> set xs \<subseteq> safes s)"
proof (induction xs arbitrary: s ch)
  case Nil
  have "map (strike_safes {}) (knowledge s) = knowledge s"
    by (simp add: strike_safes_empty map_idI)
  then show ?case by simp
next
  case (Cons x xs)
  show ?case
  proof (cases "x \<in> safes s")
    case True
    then have "set (x # xs) - safes s = set xs - safes s"
      and "safes s \<union> set (x # xs) = safes s \<union> set xs" by auto
    then show ?thesis using True by (simp add: safe_step_old Cons.IH)
  next
    case False
    let ?D = "set xs - insert x (safes s)"
    have eq: "insert x ?D = set (x # xs) - safes s" using False by auto
    have "map (strike_safes ?D) (map (\<lambda>S. mark_safe S x) (knowledge s))
            = map (strike_safes (set (x # xs) - safes s)) (knowledge s)"
      by (simp add: strike_safes_mark_safe eq)
    then show ?thesis
      using False by (simp add: safe_step_new Cons.IH ai_mark_safe_def)
  qed
qed

text \<open>So the order in which a set of new mines, or of new safes, is visited does not
  matter.\<close>

lemma mark_mines_any_order:
  "set xs = set ys \<Longrightarrow> fold mine_step xs acc = fold mine_step ys acc"
  by (cases acc) (simp add: fold_mine_step)

lemma mark_safes_any_order:
  "set xs = set ys \<Longrightarrow> fold safe_step xs acc = fold safe_step ys acc"
  by (cases acc) (simp add: fold_safe_step)

lemma mark_new_mines_eq:
  "finite A \<Longrightarrow> mark_new_mines A (s, ch) =
     (s\<lparr>mines := mines s \<union> A, knowledge := map (strike_mines (A - mines s)) (knowledge s)\<rparr>,
      ch \<or> \<not> A \<subseteq> mines s)"
  by (simp add: mark_new_mines_def fold_mine_step)

lemma mark_new_safes_eq:
  "finite A \<Longrightarrow> mark_new_safes A (s, ch) =
     (s\<lparr>safes := safes s \<union> A, knowledge := map (strike_safes (A - safes s)) (knowledge s)\<rparr>,
      ch \<or> \<not> A \<subseteq> safes s)"
  by (simp add: mark_new_safes_def fold_safe_step)

text \<open>The extraction phase collects the union of the known mines and of the known safes.\<close>

definition all_known_mines :: "sentence list \<Rightarrow> cell set" where
  "all_known_mines K = (\<Union>S \<in> set K. known_mines S)"

definition all_known_safes :: "sentence list \<Rightarrow> cell set" where
  "all_known_safes K = (\<Union>S \<in> set K. known_safes S)"

lemma fold_collect_step:
  "fold collect_step K acc =
     (fst acc \<union> (\<Union>S \<in> set K. known_mines S), snd acc \<union> (\<Union>S \<in> set K. known_safes S))"
proof (induction K arbitrary: acc)
  case Nil
  then show ?case by simp
next
  case (Cons S K)
  have "fold collect_step (S # K) acc = fold collect_step K (collect_step S acc)" by simp
  also have "\<dots> = (fst (collect_step S acc) \<union> (\<Union>S \<in> set K. known_mines S),
                    snd (collect_step S acc) \<union> (\<Union>S \<in> set K. known_safes S))"
    by (rule Cons.IH)
  also have "\<dots> = (fst acc \<union> (\<Union>S \<in> set (S # K). known_mines S),
                    snd acc \<union> (\<Union>S \<in> set (S # K). known_safes S))"
    by (simp add: collect_step_eq Un_assoc)
  finally show ?case .
qed

lemma collect_known_eq: "collect_known K = (all_known_mines K, all_known_safes K)"
  by (simp add: collect_known_def fold_collect_step all_known_mines_def all_known_safes_def)

definition cells_of :: "sentence list \<Rightarrow> cell set" where
  "cells_of K = (\<Union>S \<in> set K. cells S)"

definition finite_cells :: "sentence list \<Rightarrow> bool" where
  "finite_cells K = (\<forall>S \<in> set K. finite (cells S))"

lemma finite_cells_of: "finite_cells K \<Longrightarrow> finite (cells_of K)"
  by (simp add: finite_cells_def cells_of_def)

lemma all_known_mines_subset: "all_known_mines K \<subseteq> cells_of K"
  by (auto simp: all_known_mines_def cells_of_def known_mines_def split: if_splits)

lemma all_known_safes_subset: "all_known_safes K \<subseteq> cells_of K"
  by (auto simp: all_known_safes_def cells_of_def known_safes_def split: if_splits)

lemma mark_known_eq:
  assumes "finite_cells (knowledge s)"
  shows "mark_known s =
     (s\<lparr>mines := mines s \<union> all_known_mines (knowledge s),
        safes := safes s \<union> all_known_safes (knowledge s),
        knowledge := map (strike_safes (all_known_safes (knowledge s) - safes s))
                       (map (strike_mines (all_known_mines (knowledge s) - mines s)) (knowledge s))\<rparr>,
      \<not> all_known_mines (knowledge s) \<subseteq> mines s \<or> \<not> all_known_safes (knowledge s) \<subseteq> safes s)"
proof -
  have fin: "finite (cells_of (knowledge s))" using assms by (rule finite_cells_of)
  have fm: "finite (all_known_mines (knowledge s))"
    using all_known_mines_subset fin by (rule finite_subset)
  have fs: "finite (all_known_safes (knowledge s))"
    using all_known_safes_subset fin by (rule finite_subset)
  show ?thesis
    by (simp add: mark_known_def collect_known_eq Let_def mark_new_mines_eq [OF fm]
        mark_new_safes_eq [OF fs])
qed

section \<open>One pass in closed form\<close>

definition new_mines_of :: "ai \<Rightarrow> cell set" where
  "new_mines_of s = all_known_mines (knowledge s) - mines s"

definition new_safes_of :: "ai \<Rightarrow> cell set" where
  "new_safes_of s = all_known_safes (knowledge s) - safes s"

definition pruned :: "ai \<Rightarrow> sentence list" where
  "pruned s = remove_empty (map (strike_safes (new_safes_of s))
                 (map (strike_mines (new_mines_of s)) (knowledge s)))"

definition derived :: "ai \<Rightarrow> sentence list" where
  "derived s = fst (subtract_all (pruned s) False)"

lemma update_pass_eq:
  assumes "finite_cells (knowledge s)"
  shows "update_pass s =
     (s\<lparr>mines := mines s \<union> all_known_mines (knowledge s),
        safes := safes s \<union> all_known_safes (knowledge s),
        knowledge := pruned s @ derived s\<rparr>,
      new_mines_of s \<noteq> {} \<or> new_safes_of s \<noteq> {} \<or> derived s \<noteq> [])"
proof -
  let ?ch = "\<not> all_known_mines (knowledge s) \<subseteq> mines s \<or> \<not> all_known_safes (knowledge s) \<subseteq> safes s"
  define K0 where "K0 = map (strike_safes (all_known_safes (knowledge s) - safes s))
             (map (strike_mines (all_known_mines (knowledge s) - mines s)) (knowledge s))"
  define s1 where "s1 = s\<lparr>mines := mines s \<union> all_known_mines (knowledge s),
        safes := safes s \<union> all_known_safes (knowledge s), knowledge := K0\<rparr>"
  have mk: "mark_known s = (s1, ?ch)"
    unfolding s1_def K0_def by (rule mark_known_eq [OF assms])
  have k: "knowledge s1 = K0" by (simp add: s1_def)
  have p: "remove_empty K0 = pruned s"
    by (simp only: K0_def pruned_def new_mines_of_def new_safes_of_def)
  have d: "fst (subtract_all (pruned s) ?ch) = derived s"
    unfolding derived_def by (rule fst_subtract_all_changed)
  have c: "snd (subtract_all (pruned s) ?ch) = (?ch \<or> derived s \<noteq> [])"
    by (subst snd_subtract_all, subst d, rule refl)
  have e: "(?ch \<or> derived s \<noteq> []) = (new_mines_of s \<noteq> {} \<or> new_safes_of s \<noteq> {} \<or> derived s \<noteq> [])"
    by (auto simp: new_mines_of_def new_safes_of_def)
  have r: "s1\<lparr>knowledge := pruned s @ derived s\<rparr> =
      s\<lparr>mines := mines s \<union> all_known_mines (knowledge s),
        safes := safes s \<union> all_known_safes (knowledge s),
        knowledge := pruned s @ derived s\<rparr>"
    by (simp add: s1_def)
  have "update_pass s = (s1\<lparr>knowledge := pruned s @ fst (subtract_all (pruned s) ?ch)\<rparr>,
      snd (subtract_all (pruned s) ?ch))"
    by (simp only: update_pass_def Let_def mk fst_conv snd_conv k p)
  then show ?thesis by (simp only: d c e r)
qed

section \<open>Sentences that agree with a mine placement\<close>

text \<open>A list of sentences is sound for a set \<open>M\<close> of mines when every sentence has finitely
  many cells and its count is the number of its cells that are in \<open>M\<close>.\<close>

definition sound :: "cell set \<Rightarrow> sentence list \<Rightarrow> bool" where
  "sound M K = (\<forall>S \<in> set K. finite (cells S) \<and> count S = int (card (cells S \<inter> M)))"

lemma sound_finite_cells: "sound M K \<Longrightarrow> finite_cells K"
  by (simp add: sound_def finite_cells_def)

lemma sound_Nil: "sound M []"
  by (simp add: sound_def)

lemma sound_append: "sound M (K @ K') \<longleftrightarrow> sound M K \<and> sound M K'"
  by (auto simp: sound_def)

lemma sound_remove_empty: "sound M K \<Longrightarrow> sound M (remove_empty K)"
  by (simp add: sound_def remove_empty_def)

lemma sound_known_mines:
  assumes "sound M K"
  shows "all_known_mines K \<subseteq> M"
proof
  fix p assume "p \<in> all_known_mines K"
  then obtain S where S: "S \<in> set K" "p \<in> known_mines S"
    by (auto simp: all_known_mines_def)
  then have eq: "int (card (cells S)) = count S" and p: "p \<in> cells S"
    by (auto simp: known_mines_def split: if_splits)
  from assms S have fin: "finite (cells S)" and cnt: "count S = int (card (cells S \<inter> M))"
    by (auto simp: sound_def)
  from eq cnt have "card (cells S \<inter> M) = card (cells S)" by simp
  with fin have "cells S \<inter> M = cells S"
    by (intro card_subset_eq) auto
  with p show "p \<in> M" by auto
qed

lemma sound_known_safes:
  assumes "sound M K"
  shows "all_known_safes K \<inter> M = {}"
proof -
  have "p \<notin> M" if "p \<in> all_known_safes K" for p
  proof -
    from that obtain S where S: "S \<in> set K" "p \<in> known_safes S"
      by (auto simp: all_known_safes_def)
    then have z: "count S = 0" and p: "p \<in> cells S"
      by (auto simp: known_safes_def split: if_splits)
    from assms S have fin: "finite (cells S)" and cnt: "count S = int (card (cells S \<inter> M))"
      by (auto simp: sound_def)
    from z cnt fin have "cells S \<inter> M = {}" by simp
    with p show ?thesis by auto
  qed
  then show ?thesis by auto
qed

lemma sound_strike_mines:
  assumes "sound M K" "D \<subseteq> M"
  shows "sound M (map (strike_mines D) K)"
  unfolding sound_def
proof
  fix T assume "T \<in> set (map (strike_mines D) K)"
  then obtain S where S: "S \<in> set K" and T: "T = strike_mines D S" by auto
  from assms S have fin: "finite (cells S)" and cnt: "count S = int (card (cells S \<inter> M))"
    by (auto simp: sound_def)
  have sub: "cells S \<inter> D \<subseteq> cells S \<inter> M" using assms(2) by auto
  have "(cells S - D) \<inter> M = cells S \<inter> M - cells S \<inter> D" by auto
  then have "card ((cells S - D) \<inter> M) = card (cells S \<inter> M) - card (cells S \<inter> D)"
    using fin sub by (simp add: card_Diff_subset finite_subset)
  moreover have "card (cells S \<inter> D) \<le> card (cells S \<inter> M)"
    using fin sub by (intro card_mono) auto
  ultimately have "int (card ((cells S - D) \<inter> M)) = count S - int (card (cells S \<inter> D))"
    using cnt by simp
  then show "finite (cells T) \<and> count T = int (card (cells T \<inter> M))"
    using fin by (simp add: T strike_mines_def)
qed

lemma sound_strike_safes:
  assumes "sound M K" "D \<inter> M = {}"
  shows "sound M (map (strike_safes D) K)"
  unfolding sound_def
proof
  fix T assume "T \<in> set (map (strike_safes D) K)"
  then obtain S where S: "S \<in> set K" and T: "T = strike_safes D S" by auto
  from assms S have fin: "finite (cells S)" and cnt: "count S = int (card (cells S \<inter> M))"
    by (auto simp: sound_def)
  have "(cells S - D) \<inter> M = cells S \<inter> M" using assms(2) by auto
  then show "finite (cells T) \<and> count T = int (card (cells T \<inter> M))"
    using fin cnt by (simp add: T strike_safes_def)
qed

lemma sound_candidate:
  assumes "finite (cells A)" "count A = int (card (cells A \<inter> M))"
    and "count B = int (card (cells B \<inter> M))" "cells B \<subseteq> cells A"
  shows "finite (cells (candidate A B)) \<and>
         count (candidate A B) = int (card (cells (candidate A B) \<inter> M))"
proof -
  have sub: "cells B \<inter> M \<subseteq> cells A \<inter> M" using assms(4) by auto
  have "(cells A - cells B) \<inter> M = cells A \<inter> M - cells B \<inter> M" by auto
  then have "card ((cells A - cells B) \<inter> M) = card (cells A \<inter> M) - card (cells B \<inter> M)"
    using assms(1) sub by (simp add: card_Diff_subset finite_subset)
  moreover have "card (cells B \<inter> M) \<le> card (cells A \<inter> M)"
    using assms(1) sub by (intro card_mono) auto
  ultimately show ?thesis using assms by (simp add: candidate_def)
qed

lemma sound_subtract_all:
  assumes "sound M K"
  shows "sound M (fst (subtract_all K ch))"
  unfolding sound_def
proof
  fix T assume "T \<in> set (fst (subtract_all K ch))"
  then obtain A B where T: "T = candidate A B" and A: "A \<in> set K" and B: "B \<in> set K"
    and s: "subtractable A B"
    unfolding set_subtract_all by blast
  from assms A B have "finite (cells A)" "count A = int (card (cells A \<inter> M))"
    "count B = int (card (cells B \<inter> M))" by (auto simp: sound_def)
  moreover from s have "cells B \<subseteq> cells A" by (simp add: subtractable_def)
  ultimately show "finite (cells T) \<and> count T = int (card (cells T \<inter> M))"
    unfolding T by (rule sound_candidate)
qed

lemma sound_pruned:
  assumes "sound M (knowledge s)"
  shows "sound M (pruned s)"
proof -
  have "new_mines_of s \<subseteq> M"
    using sound_known_mines [OF assms] by (auto simp: new_mines_of_def)
  then have 1: "sound M (map (strike_mines (new_mines_of s)) (knowledge s))"
    by (rule sound_strike_mines [OF assms])
  have "new_safes_of s \<inter> M = {}"
    using sound_known_safes [OF assms] by (auto simp: new_safes_of_def)
  then have "sound M (map (strike_safes (new_safes_of s))
      (map (strike_mines (new_mines_of s)) (knowledge s)))"
    by (rule sound_strike_safes [OF 1])
  then show ?thesis unfolding pruned_def by (rule sound_remove_empty)
qed

lemma sound_update_pass:
  assumes "sound M (knowledge s)"
  shows "sound M (knowledge (fst (update_pass s)))"
proof -
  have p: "sound M (pruned s)" using assms by (rule sound_pruned)
  then have "sound M (derived s)" unfolding derived_def by (rule sound_subtract_all)
  with p show ?thesis
    by (simp add: update_pass_eq [OF sound_finite_cells [OF assms]] sound_append)
qed

section \<open>Invariants of the loop\<close>

text \<open>What holds before the loop and is kept by every pass holds when the loop returns,
  and the last pass started in such a state and reported no change.\<close>

lemma update_knowledge_rule:
  assumes ret: "update_knowledge s = Some y"
    and init: "Inv s"
    and pass: "\<And>s. Inv s \<Longrightarrow> Inv (fst (update_pass s))"
  shows "Inv y \<and> (\<exists>s0. Inv s0 \<and> update_pass s0 = (y, False))"
proof -
  have "Inv s \<longrightarrow> Inv y \<and> (\<exists>s0. Inv s0 \<and> update_pass s0 = (y, False))"
  proof (rule update_knowledge.raw_induct
      [where P = "\<lambda>s y. Inv s \<longrightarrow> Inv y \<and> (\<exists>s0. Inv s0 \<and> update_pass s0 = (y, False))", OF _ ret],
      rule impI)
    fix f :: "ai \<Rightarrow> ai option" and s y
    assume IH: "\<And>x y. f x = Some y \<Longrightarrow> Inv x \<longrightarrow> Inv y \<and> (\<exists>s0. Inv s0 \<and> update_pass s0 = (y, False))"
      and step: "(case update_pass s of (s', changed) \<Rightarrow> if changed then f s' else Some s') = Some y"
      and inv: "Inv s"
    obtain s' ch where p: "update_pass s = (s', ch)" by (cases "update_pass s")
    have inv': "Inv s'" using pass [OF inv] p by simp
    show "Inv y \<and> (\<exists>s0. Inv s0 \<and> update_pass s0 = (y, False))"
    proof (cases ch)
      case True
      with step p have "f s' = Some y" by simp
      from IH [OF this] inv' show ?thesis by simp
    next
      case False
      with step p have "y = s'" by simp
      with inv inv' p False show ?thesis by auto
    qed
  qed
  with init show ?thesis by simp
qed

section \<open>Termination of the fixpoint loop on sound knowledge\<close>

lemma sentence_eqI: "cells A = cells B \<Longrightarrow> count A = count B \<Longrightarrow> A = (B :: sentence)"
  by simp

lemma cells_of_strike_mines: "cells_of (map (strike_mines D) K) = cells_of K - D"
  by (auto simp: cells_of_def strike_mines_def)

lemma cells_of_strike_safes: "cells_of (map (strike_safes D) K) = cells_of K - D"
  by (auto simp: cells_of_def strike_safes_def)

lemma cells_of_remove_empty: "cells_of (remove_empty K) = cells_of K"
  by (auto simp: cells_of_def remove_empty_def)

lemma cells_of_append: "cells_of (K @ K') = cells_of K \<union> cells_of K'"
  by (auto simp: cells_of_def)

lemma cells_of_subtract_all: "cells_of (fst (subtract_all K ch)) \<subseteq> cells_of K"
proof
  fix p assume "p \<in> cells_of (fst (subtract_all K ch))"
  then obtain T where "T \<in> set (fst (subtract_all K ch))" "p \<in> cells T"
    by (auto simp: cells_of_def)
  then obtain A B where "T = candidate A B" "A \<in> set K" and "p \<in> cells T"
    unfolding set_subtract_all by blast
  then show "p \<in> cells_of K" by (auto simp: candidate_def cells_of_def)
qed

lemma cells_of_pruned: "cells_of (pruned s) = cells_of (knowledge s) - new_mines_of s - new_safes_of s"
  unfolding pruned_def cells_of_remove_empty cells_of_strike_safes cells_of_strike_mines
  by (rule refl)

lemma cells_of_update_pass:
  assumes "finite_cells (knowledge s)"
  shows "cells_of (knowledge (fst (update_pass s))) =
           cells_of (knowledge s) - new_mines_of s - new_safes_of s"
proof -
  have "cells_of (derived s) \<subseteq> cells_of (pruned s)"
    unfolding derived_def by (rule cells_of_subtract_all)
  then show ?thesis
    by (auto simp: update_pass_eq [OF assms] cells_of_append cells_of_pruned)
qed

lemma new_mines_of_subset: "new_mines_of s \<subseteq> cells_of (knowledge s)"
  using all_known_mines_subset [of "knowledge s"] by (auto simp: new_mines_of_def)

lemma new_safes_of_subset: "new_safes_of s \<subseteq> cells_of (knowledge s)"
  using all_known_safes_subset [of "knowledge s"] by (auto simp: new_safes_of_def)

text \<open>The non-empty cell sets over the cells in use that no sentence of the list has.\<close>

definition open_sets :: "sentence list \<Rightarrow> cell set set" where
  "open_sets K = {C. C \<subseteq> cells_of K \<and> C \<noteq> {}} - cells ` set K"

lemma finite_open_sets: "finite_cells K \<Longrightarrow> finite (open_sets K)"
proof -
  assume "finite_cells K"
  then have "finite (Pow (cells_of K))" by (simp add: finite_cells_of)
  moreover have "open_sets K \<subseteq> Pow (cells_of K)" by (auto simp: open_sets_def)
  ultimately show ?thesis by (rule rev_finite_subset)
qed

lemma pruned_unchanged:
  assumes "new_mines_of s = {}" "new_safes_of s = {}"
  shows "pruned s = remove_empty (knowledge s)"
proof -
  have "map (strike_mines {}) (knowledge s) = knowledge s"
    by (simp add: strike_mines_empty map_idI)
  moreover have "map (strike_safes {}) (knowledge s) = knowledge s"
    by (simp add: strike_safes_empty map_idI)
  ultimately show ?thesis by (simp add: pruned_def assms)
qed

lemma derived_fresh:
  assumes snd: "sound M K" and T: "T \<in> set (fst (subtract_all (remove_empty K) ch))"
  shows "cells T \<in> open_sets K"
proof -
  let ?K1 = "remove_empty K"
  have snd1: "sound M ?K1" using snd by (rule sound_remove_empty)
  from T obtain A B where TAB: "T = candidate A B" and A: "A \<in> set ?K1" and B: "B \<in> set ?K1"
    and s: "subtractable A B" and fresh: "candidate A B \<notin> set ?K1"
    unfolding set_subtract_all by blast
  have Tsound: "finite (cells T) \<and> count T = int (card (cells T \<inter> M))"
    using sound_subtract_all [OF snd1, of ch] T by (simp add: sound_def)
  have "cells T \<noteq> {}"
  proof
    assume "cells T = {}"
    then have "cells A \<subseteq> cells B" by (simp add: TAB candidate_def)
    with s have eq: "cells A = cells B" by (auto simp: subtractable_def)
    from snd1 A B have "count A = int (card (cells A \<inter> M))" "count B = int (card (cells B \<inter> M))"
      by (auto simp: sound_def)
    with eq have "count A = count B" by simp
    with eq have "A = B" by (rule sentence_eqI)
    with s show False by (simp add: subtractable_def)
  qed
  moreover have "cells T \<subseteq> cells_of K"
  proof -
    have "cells T \<subseteq> cells A" by (auto simp: TAB candidate_def)
    also have "cells A \<subseteq> cells_of ?K1" using A by (auto simp: cells_of_def)
    finally show ?thesis by (simp add: cells_of_remove_empty)
  qed
  moreover have "cells T \<notin> cells ` set K"
  proof
    assume "cells T \<in> cells ` set K"
    then obtain S where S: "S \<in> set K" and eq: "cells S = cells T" by auto
    from snd S have "count S = int (card (cells S \<inter> M))" by (simp add: sound_def)
    with Tsound eq have "count S = count T" by simp
    with eq have "S = T" by (rule sentence_eqI)
    moreover from S eq \<open>cells T \<noteq> {}\<close> have "S \<in> set ?K1" by (simp add: remove_empty_def)
    ultimately show False using fresh TAB by simp
  qed
  ultimately show ?thesis by (simp add: open_sets_def)
qed

lemma update_pass_decreases:
  assumes snd: "sound M (knowledge s)" and ch: "snd (update_pass s)"
  shows "card (cells_of (knowledge (fst (update_pass s)))) < card (cells_of (knowledge s))
       \<or> card (cells_of (knowledge (fst (update_pass s)))) = card (cells_of (knowledge s))
         \<and> card (open_sets (knowledge (fst (update_pass s)))) < card (open_sets (knowledge s))"
proof -
  let ?K = "knowledge s" and ?K' = "knowledge (fst (update_pass s))"
  have fin: "finite_cells ?K" using snd by (rule sound_finite_cells)
  have finU: "finite (cells_of ?K)" using fin by (rule finite_cells_of)
  have U': "cells_of ?K' = cells_of ?K - new_mines_of s - new_safes_of s"
    using fin by (rule cells_of_update_pass)
  show ?thesis
  proof (cases "new_mines_of s = {} \<and> new_safes_of s = {}")
    case False
    then obtain p where "p \<in> new_mines_of s \<union> new_safes_of s" by auto
    then have "p \<in> cells_of ?K" "p \<notin> cells_of ?K'"
      using new_mines_of_subset [of s] new_safes_of_subset [of s] U' by auto
    moreover have "cells_of ?K' \<subseteq> cells_of ?K" using U' by auto
    ultimately have "cells_of ?K' \<subset> cells_of ?K" by auto
    with finU have "card (cells_of ?K') < card (cells_of ?K)" by (rule psubset_card_mono)
    then show ?thesis ..
  next
    case True
    then have nm: "new_mines_of s = {}" and ns: "new_safes_of s = {}" by simp_all
    have pr: "pruned s = remove_empty ?K" using nm ns by (rule pruned_unchanged)
    have K': "?K' = remove_empty ?K @ derived s"
      by (simp add: update_pass_eq [OF fin] pr)
    from ch have "derived s \<noteq> []"
      by (simp add: update_pass_eq [OF fin] nm ns)
    then obtain T where T: "T \<in> set (derived s)" by (cases "derived s") auto
    then have "T \<in> set (fst (subtract_all (remove_empty ?K) False))"
      by (simp add: derived_def pr)
    with snd have Topen: "cells T \<in> open_sets ?K" by (rule derived_fresh)
    have Tclosed: "cells T \<notin> open_sets ?K'" using T by (simp add: open_sets_def K')
    have Ueq: "cells_of ?K' = cells_of ?K" using U' nm ns by simp
    have "open_sets ?K' \<subseteq> open_sets ?K"
    proof
      fix C assume C: "C \<in> open_sets ?K'"
      then have 1: "C \<subseteq> cells_of ?K" and 2: "C \<noteq> {}" and 3: "C \<notin> cells ` set ?K'"
        by (simp_all add: open_sets_def Ueq)
      have "C \<notin> cells ` set ?K"
      proof
        assume "C \<in> cells ` set ?K"
        then obtain S where "S \<in> set ?K" "cells S = C" by auto
        with 2 have "S \<in> set (remove_empty ?K)" by (simp add: remove_empty_def)
        then have "S \<in> set ?K'" by (simp add: K')
        with \<open>cells S = C\<close> 3 show False by auto
      qed
      with 1 2 show "C \<in> open_sets ?K" by (simp add: open_sets_def)
    qed
    with Topen Tclosed have "open_sets ?K' \<subset> open_sets ?K" by auto
    with finite_open_sets [OF fin] have "card (open_sets ?K') < card (open_sets ?K)"
      by (rule psubset_card_mono)
    with Ueq show ?thesis by simp
  qed
qed

lemma update_knowledge_returns:
  assumes "sound M (knowledge s)"
  shows "\<exists>s'. update_knowledge s = Some s'"
proof -
  define r where "r = inv_image (less_than <*lex*> less_than)
      (\<lambda>s :: ai. (card (cells_of (knowledge s)), card (open_sets (knowledge s))))"
  have wf: "wf r" unfolding r_def by (intro wf_inv_image wf_lex_prod wf_less_than)
  have "sound M (knowledge s) \<longrightarrow> (\<exists>s'. update_knowledge s = Some s')"
  proof (rule wf_induct [OF wf, of "\<lambda>s. sound M (knowledge s) \<longrightarrow> (\<exists>s'. update_knowledge s = Some s')"],
      rule impI)
    fix s
    assume IH: "\<forall>t. (t, s) \<in> r \<longrightarrow> sound M (knowledge t) \<longrightarrow> (\<exists>s'. update_knowledge t = Some s')"
      and snd: "sound M (knowledge s)"
    obtain s' ch where pass: "update_pass s = (s', ch)" by (cases "update_pass s")
    show "\<exists>y. update_knowledge s = Some y"
    proof (cases ch)
      case False
      with pass have "update_knowledge s = Some s'"
        by (subst update_knowledge.simps) simp
      then show ?thesis ..
    next
      case True
      have snd': "sound M (knowledge s')"
        using sound_update_pass [OF snd] pass by simp
      have "(s', s) \<in> r"
        using update_pass_decreases [OF snd] pass True by (auto simp: r_def)
      with IH snd' obtain y where "update_knowledge s' = Some y" by blast
      with pass True have "update_knowledge s = Some y"
        by (subst update_knowledge.simps) simp
      then show ?thesis ..
    qed
  qed
  with assms show ?thesis by simp
qed

text \<open>Claim C1, as amended.  When the sentences are sound for some set of mines (each
  has finitely many cells and its count is the number of its cells in that set), the
  loop of \<open>update_knowledge\<close> returns, and the sentences it returns are sound for the
  same set.  A pass that reports a change either removes a
  cell from the sentences or gives a sentence to a non-empty cell set that had none, so
  the number of passes is bounded by the cells and cell subsets in use.\<close>

theorem update_knowledge_terminates:
  assumes "sound M (knowledge s)"
  shows "\<exists>s'. update_knowledge s = Some s' \<and> sound M (knowledge s')"
proof -
  from assms obtain s' where s': "update_knowledge s = Some s'"
    using update_knowledge_returns by blast
  have "sound M (knowledge s')"
    using update_knowledge_rule [OF s', of "\<lambda>s. sound M (knowledge s)", OF assms sound_update_pass]
    by simp
  with s' show ?thesis by simp
qed

text \<open>Scenario A of the specification, just before the loop runs: one sentence
  \<open>{(0,0)} = 1\<close>, sound for the mine at (0,0).\<close>

theorem update_knowledge_terminates_witness:
  "sound {(0, 0)} (knowledge \<lparr>height = 1, width = 2, moves_made = {(0, 1)}, mines = {},
       safes = {(0, 1)}, knowledge = [\<lparr>cells = {(0, 0)}, count = 1\<rparr>]\<rparr>)
   \<and> (\<exists>s'. update_knowledge \<lparr>height = 1, width = 2, moves_made = {(0, 1)}, mines = {},
       safes = {(0, 1)}, knowledge = [\<lparr>cells = {(0, 0)}, count = 1\<rparr>]\<rparr> = Some s'
         \<and> sound {(0, 0)} (knowledge s'))"
proof -
  have a: "sound {(0, 0)} (knowledge \<lparr>height = 1, width = 2, moves_made = {(0, 1)}, mines = {},
       safes = {(0, 1)}, knowledge = [\<lparr>cells = {(0, 0)}, count = 1\<rparr>]\<rparr>)"
    by (simp add: sound_def)
  show ?thesis using update_knowledge_terminates [OF a] a by simp
qed

subsection \<open>A knowledge base on which the loop never returns\<close>

text \<open>Two sentences with the same three cells and the counts 1 and 2: the state after the
  clues \<open>((0,0), 1)\<close> and \<open>((0,0), 2)\<close> on a 2 x 2 board.  Each pass appends the
  sentence \<open>{} = 1\<close> and reports a change; the next pass prunes it and appends it
  again.\<close>

definition clash :: ai where
  "clash = \<lparr>height = 2, width = 2, moves_made = {(0, 0)}, mines = {}, safes = {(0, 0)},
     knowledge = [\<lparr>cells = {(0, 1), (1, 0), (1, 1)}, count = 1\<rparr>,
                  \<lparr>cells = {(0, 1), (1, 0), (1, 1)}, count = 2\<rparr>]\<rparr>"

definition clash' :: ai where
  "clash' = \<lparr>height = 2, width = 2, moves_made = {(0, 0)}, mines = {}, safes = {(0, 0)},
     knowledge = [\<lparr>cells = {(0, 1), (1, 0), (1, 1)}, count = 1\<rparr>,
                  \<lparr>cells = {(0, 1), (1, 0), (1, 1)}, count = 2\<rparr>,
                  \<lparr>cells = {}, count = 1\<rparr>]\<rparr>"

lemma update_pass_clash: "update_pass clash = (clash', True)"
  by code_simp

lemma update_pass_clash': "update_pass clash' = (clash', True)"
  by code_simp

lemma update_knowledge_stuck:
  assumes "update_knowledge s = Some y"
  shows "s \<noteq> clash \<and> s \<noteq> clash'"
proof (rule update_knowledge.raw_induct [where P = "\<lambda>s y. s \<noteq> clash \<and> s \<noteq> clash'", OF _ assms])
  fix f :: "ai \<Rightarrow> ai option" and s y
  assume IH: "\<And>x y. f x = Some y \<Longrightarrow> x \<noteq> clash \<and> x \<noteq> clash'"
    and step: "(case update_pass s of (s', changed) \<Rightarrow> if changed then f s' else Some s') = Some y"
  show "s \<noteq> clash \<and> s \<noteq> clash'"
  proof (rule ccontr)
    assume "\<not> (s \<noteq> clash \<and> s \<noteq> clash')"
    then have "update_pass s = (clash', True)"
      using update_pass_clash update_pass_clash' by auto
    with step have "f clash' = Some y" by simp
    from IH [OF this] show False by simp
  qed
qed

lemma update_knowledge_clash: "update_knowledge clash = None"
  using update_knowledge_stuck [of clash] by (cases "update_knowledge clash") auto

lemma first_clue: "add_knowledge (init_ai 2 2) (0, 0) 1 =
  Some \<lparr>height = 2, width = 2, moves_made = {(0, 0)}, mines = {}, safes = {(0, 0)},
     knowledge = [\<lparr>cells = {(0, 1), (1, 0), (1, 1)}, count = 1\<rparr>]\<rparr>"
  by code_simp

lemma second_clue: "add_knowledge \<lparr>height = 2, width = 2, moves_made = {(0, 0)}, mines = {}, safes = {(0, 0)},
     knowledge = [\<lparr>cells = {(0, 1), (1, 0), (1, 1)}, count = 1\<rparr>]\<rparr> (0, 0) 2 = update_knowledge clash"
proof -
  let ?s = "\<lparr>height = 2, width = 2, moves_made = {(0, 0)}, mines = {}, safes = {(0, 0)},
     knowledge = [\<lparr>cells = {(0, 1), (1, 0), (1, 1)}, count = 1\<rparr>]\<rparr>"
  let ?s1 = "ai_mark_safe (?s\<lparr>moves_made := insert (0, 0) (moves_made ?s)\<rparr>) (0, 0)"
  have s1: "?s1 = ?s" by code_simp
  have scan: "scan_neighbors ?s (0, 0) = ({(0, 1), (1, 0), (1, 1)}, 0)" by code_simp
  show ?thesis
    unfolding add_knowledge_def record_clue_def Let_def s1 scan by (simp add: clash_def)
qed


text \<open>Claim C1 as stated fails: the knowledge base has two constraints over a 2 x 2
  board, and the loop does not return on it.\<close>

theorem update_knowledge_diverges:
  "finite_cells (knowledge clash) \<and> length (knowledge clash) = 2
   \<and> update_knowledge clash = None
   \<and> Option.bind (add_knowledge (init_ai 2 2) (0, 0) 1) (\<lambda>s. add_knowledge s (0, 0) 2) = None"
proof -
  have "finite_cells (knowledge clash)" by (simp add: finite_cells_def clash_def)
  moreover have "length (knowledge clash) = 2" by (simp add: clash_def)
  moreover have "Option.bind (add_knowledge (init_ai 2 2) (0, 0) 1) (\<lambda>s. add_knowledge s (0, 0) 2) = None"
    by (simp add: first_clue second_clue update_knowledge_clash)
  ultimately show ?thesis using update_knowledge_clash by simp
qed

section \<open>Clues of a real board\<close>

lemma distinct_around: "distinct (around c)"
  by (simp add: around_def distinct_product)

lemma finite_neighbors_of: "finite (neighbors_of h w c)"
  by (simp add: neighbors_of_def)

lemma neighbor_step_eq:
  "neighbor_step s c p acc =
     (if p \<noteq> c \<and> in_bounds (height s) (width s) p \<and> p \<in> mines s then (fst acc, snd acc + 1)
      else if p \<noteq> c \<and> in_bounds (height s) (width s) p \<and> p \<notin> mines s \<and> p \<notin> safes s
      then (insert p (fst acc), snd acc)
      else acc)"
  by (simp add: neighbor_step_def)

lemma fold_neighbor_step:
  "fold (neighbor_step s c) xs acc =
     (fst acc \<union> {p \<in> set xs. p \<noteq> c \<and> in_bounds (height s) (width s) p \<and> p \<notin> mines s \<and> p \<notin> safes s},
      snd acc + int (length (filter (\<lambda>p. p \<noteq> c \<and> in_bounds (height s) (width s) p \<and> p \<in> mines s) xs)))"
proof (induction xs arbitrary: acc)
  case Nil
  then show ?case by simp
next
  case (Cons x xs)
  let ?P = "\<lambda>p. p \<noteq> c \<and> in_bounds (height s) (width s) p \<and> p \<notin> mines s \<and> p \<notin> safes s"
  let ?Q = "\<lambda>p. p \<noteq> c \<and> in_bounds (height s) (width s) p \<and> p \<in> mines s"
  define acc' where "acc' = neighbor_step s c x acc"
  have step: "acc' = (if ?Q x then (fst acc, snd acc + 1)
      else if ?P x then (insert x (fst acc), snd acc) else acc)"
    unfolding acc'_def by (rule neighbor_step_eq)
  have "fold (neighbor_step s c) (x # xs) acc = fold (neighbor_step s c) xs acc'"
    by (simp add: acc'_def)
  also have "\<dots> = (fst acc' \<union> {p \<in> set xs. ?P p}, snd acc' + int (length (filter ?Q xs)))"
    by (rule Cons.IH)
  also have "\<dots> = (fst acc \<union> {p \<in> set (x # xs). ?P p}, snd acc + int (length (filter ?Q (x # xs))))"
    unfolding step by auto
  finally show ?case .
qed

lemma length_filter_card: "distinct xs \<Longrightarrow> length (filter P xs) = card {p \<in> set xs. P p}"
proof -
  assume "distinct xs"
  then have "distinct (filter P xs)" by simp
  then have "card (set (filter P xs)) = length (filter P xs)" by (rule distinct_card)
  then show ?thesis by simp
qed

lemma scan_neighbors_eq:
  "scan_neighbors s c =
     (neighbors_of (height s) (width s) c - mines s - safes s,
      int (card (neighbors_of (height s) (width s) c \<inter> mines s)))"
proof -
  have 1: "{p \<in> set (around c). p \<noteq> c \<and> in_bounds (height s) (width s) p \<and> p \<notin> mines s \<and> p \<notin> safes s}
      = neighbors_of (height s) (width s) c - mines s - safes s"
    by (auto simp: neighbors_of_def)
  have 2: "{p \<in> set (around c). p \<noteq> c \<and> in_bounds (height s) (width s) p \<and> p \<in> mines s}
      = neighbors_of (height s) (width s) c \<inter> mines s"
    by (auto simp: neighbors_of_def)
  show ?thesis
    unfolding scan_neighbors_def fold_neighbor_step length_filter_card [OF distinct_around] 1 2
    by simp
qed

lemma nearby_step_eq:
  "nearby_step g c p cnt =
     (if p \<noteq> c \<and> in_bounds (board_height g) (board_width g) p \<and> is_mine g p then cnt + 1 else cnt)"
  by (simp add: nearby_step_def)

lemma fold_nearby_step:
  "fold (nearby_step g c) xs cnt =
     cnt + int (length (filter (\<lambda>p. p \<noteq> c \<and> in_bounds (board_height g) (board_width g) p \<and> is_mine g p) xs))"
proof (induction xs arbitrary: cnt)
  case Nil
  then show ?case by simp
next
  case (Cons x xs)
  let ?Q = "\<lambda>p. p \<noteq> c \<and> in_bounds (board_height g) (board_width g) p \<and> is_mine g p"
  define cnt' where "cnt' = nearby_step g c x cnt"
  have step: "cnt' = (if ?Q x then cnt + 1 else cnt)"
    unfolding cnt'_def by (rule nearby_step_eq)
  have "fold (nearby_step g c) (x # xs) cnt = fold (nearby_step g c) xs cnt'"
    by (simp add: cnt'_def)
  also have "\<dots> = cnt' + int (length (filter ?Q xs))"
    by (rule Cons.IH)
  also have "\<dots> = cnt + int (length (filter ?Q (x # xs)))"
    unfolding step by simp
  finally show ?case .
qed

lemma nearby_mines_eq:
  "nearby_mines g c = int (card (neighbors_of (board_height g) (board_width g) c \<inter> placement g))"
proof -
  have "{p \<in> set (around c). p \<noteq> c \<and> in_bounds (board_height g) (board_width g) p \<and> is_mine g p}
      = neighbors_of (board_height g) (board_width g) c \<inter> placement g"
    by (auto simp: neighbors_of_def placement_def)
  then show ?thesis
    unfolding nearby_mines_def fold_nearby_step length_filter_card [OF distinct_around]
    by simp
qed

section \<open>Games with true clues\<close>

definition consistent :: "minesweeper \<Rightarrow> ai \<Rightarrow> bool" where
  "consistent g s =
     (height s = board_height g \<and> width s = board_width g
      \<and> mines s \<subseteq> placement g \<and> safes s \<inter> placement g = {}
      \<and> sound (placement g) (knowledge s))"

lemma consistent_init: "consistent g (init_ai (board_height g) (board_width g))"
  by (simp add: consistent_def init_ai_def sound_Nil)

lemma consistent_update_pass:
  assumes "consistent g s"
  shows "consistent g (fst (update_pass s))"
proof -
  from assms have snd: "sound (placement g) (knowledge s)" by (simp add: consistent_def)
  have eq: "fst (update_pass s) = s\<lparr>mines := mines s \<union> all_known_mines (knowledge s),
        safes := safes s \<union> all_known_safes (knowledge s),
        knowledge := pruned s @ derived s\<rparr>"
    by (simp add: update_pass_eq [OF sound_finite_cells [OF snd]])
  have k: "sound (placement g) (knowledge (fst (update_pass s)))"
    using snd by (rule sound_update_pass)
  have "consistent g (s\<lparr>mines := mines s \<union> all_known_mines (knowledge s),
        safes := safes s \<union> all_known_safes (knowledge s),
        knowledge := pruned s @ derived s\<rparr>)"
    using assms sound_known_mines [OF snd] sound_known_safes [OF snd] k
    unfolding eq consistent_def by auto
  then show ?thesis by (simp only: eq)
qed

lemma mark_safe_strike: "mark_safe S c = strike_safes {c} S"
  by (simp add: mark_safe_def strike_safes_def)

lemma ai_mark_safe_eq:
  "ai_mark_safe s c = s\<lparr>safes := insert c (safes s), knowledge := map (strike_safes {c}) (knowledge s)\<rparr>"
  by (simp add: ai_mark_safe_def mark_safe_strike)

text \<open>The state of \<open>add_knowledge\<close> after the cell is marked, and the state it hands to the
  loop.\<close>

definition clicked :: "ai \<Rightarrow> cell \<Rightarrow> ai" where
  "clicked s c = s\<lparr>moves_made := insert c (moves_made s), safes := insert c (safes s),
     knowledge := map (strike_safes {c}) (knowledge s)\<rparr>"

definition unknown_neighbors :: "ai \<Rightarrow> cell \<Rightarrow> cell set" where
  "unknown_neighbors s c = neighbors_of (height s) (width s) c - mines s - insert c (safes s)"

definition clue_sentence :: "ai \<Rightarrow> cell \<Rightarrow> int \<Rightarrow> sentence" where
  "clue_sentence s c n =
     \<lparr>cells = unknown_neighbors s c,
      count = n - int (card (neighbors_of (height s) (width s) c \<inter> mines s))\<rparr>"

lemma record_clue_eq:
  "record_clue s c n =
     (if unknown_neighbors s c \<noteq> {}
      then (clicked s c)\<lparr>knowledge := knowledge (clicked s c) @ [clue_sentence s c n]\<rparr>
      else clicked s c)"
proof -
  have 1: "ai_mark_safe (s\<lparr>moves_made := insert c (moves_made s)\<rparr>) c = clicked s c"
    by (simp add: ai_mark_safe_eq clicked_def)
  have 2: "scan_neighbors (clicked s c) c =
      (unknown_neighbors s c, int (card (neighbors_of (height s) (width s) c \<inter> mines s)))"
    by (simp add: scan_neighbors_eq clicked_def unknown_neighbors_def)
  show ?thesis
    unfolding record_clue_def Let_def 1 2 fst_conv snd_conv clue_sentence_def by (rule refl)
qed

lemma consistent_clicked:
  assumes "consistent g s" "c \<notin> placement g"
  shows "consistent g (clicked s c)"
proof -
  from assms have "sound (placement g) (knowledge s)" by (simp add: consistent_def)
  moreover have "{c} \<inter> placement g = {}" using assms(2) by simp
  ultimately have "sound (placement g) (map (strike_safes {c}) (knowledge s))"
    by (rule sound_strike_safes)
  then show ?thesis using assms by (simp add: consistent_def clicked_def)
qed

lemma sound_clue_sentence:
  assumes "consistent g s" "c \<notin> placement g"
  shows "sound (placement g) [clue_sentence s c (nearby_mines g c)]"
proof -
  let ?N = "neighbors_of (board_height g) (board_width g) c" and ?M = "placement g"
  from assms have hw: "height s = board_height g" "width s = board_width g"
    and m: "mines s \<subseteq> ?M" and sf: "safes s \<inter> ?M = {}"
    by (simp_all add: consistent_def)
  have fin: "finite ?N" by (rule finite_neighbors_of)
  have sub: "?N \<inter> mines s \<subseteq> ?N \<inter> ?M" using m by auto
  have "(?N - mines s - insert c (safes s)) \<inter> ?M = ?N \<inter> ?M - ?N \<inter> mines s"
    using sf assms(2) by auto
  then have "card ((?N - mines s - insert c (safes s)) \<inter> ?M) = card (?N \<inter> ?M) - card (?N \<inter> mines s)"
    using fin sub by (simp add: card_Diff_subset finite_subset)
  moreover have "card (?N \<inter> mines s) \<le> card (?N \<inter> ?M)"
    using fin sub by (intro card_mono) auto
  ultimately have "int (card ((?N - mines s - insert c (safes s)) \<inter> ?M))
      = nearby_mines g c - int (card (?N \<inter> mines s))"
    by (simp add: nearby_mines_eq)
  then show ?thesis
    using fin by (simp add: sound_def clue_sentence_def unknown_neighbors_def hw)
qed

lemma consistent_record_clue:
  assumes "consistent g s" "c \<notin> placement g"
  shows "consistent g (record_clue s c (nearby_mines g c))"
proof -
  have 1: "consistent g (clicked s c)" using assms by (rule consistent_clicked)
  have 2: "sound (placement g) [clue_sentence s c (nearby_mines g c)]"
    using assms by (rule sound_clue_sentence)
  show ?thesis
    using 1 2 by (simp add: record_clue_eq consistent_def sound_append)
qed

lemma consistent_add_knowledge:
  assumes "consistent g s" "c \<notin> placement g"
  shows "\<exists>s'. add_knowledge s c (nearby_mines g c) = Some s' \<and> consistent g s'"
proof -
  have c: "consistent g (record_clue s c (nearby_mines g c))"
    using assms by (rule consistent_record_clue)
  then have "sound (placement g) (knowledge (record_clue s c (nearby_mines g c)))"
    by (simp add: consistent_def)
  then obtain s' where s': "update_knowledge (record_clue s c (nearby_mines g c)) = Some s'"
    using update_knowledge_returns by blast
  from update_knowledge_rule [OF s', of "consistent g", OF c consistent_update_pass]
  have "consistent g s'" by simp
  with s' show ?thesis by (simp add: add_knowledge_def)
qed

lemma not_mine_placement: "\<not> is_mine g c \<Longrightarrow> c \<notin> placement g"
  by (simp add: placement_def)

lemma reachable_consistent: "reachable g s \<Longrightarrow> consistent g s"
proof (induction rule: reachable.induct)
  case start
  show ?case by (rule consistent_init)
next
  case (clue s c s')
  from consistent_add_knowledge [OF clue.IH not_mine_placement [OF clue.hyps(3)]] clue.hyps(4)
  show ?case by simp
qed

lemma consistent_disjoint: "consistent g s \<Longrightarrow> mines s \<inter> safes s = {}"
  by (auto simp: consistent_def)

lemma sound_bounds:
  assumes "sound M K" "S \<in> set K"
  shows "0 \<le> count S \<and> count S \<le> int (card (cells S))"
proof -
  from assms have fin: "finite (cells S)" and cnt: "count S = int (card (cells S \<inter> M))"
    by (auto simp: sound_def)
  have "card (cells S \<inter> M) \<le> card (cells S)" using fin by (intro card_mono) auto
  with cnt show ?thesis by simp
qed

text \<open>Claim C4.  In every state of a game with true clues the sets \<open>mines\<close> and \<open>safes\<close>
  are disjoint: before a call of \<open>add_knowledge\<close>, and after it, for the call returns on
  every cell of the board that is not a mine.\<close>

theorem mines_safes_disjoint:
  assumes "reachable g s"
  shows "mines s \<inter> safes s = {}
    \<and> (\<forall>c. in_bounds (board_height g) (board_width g) c \<and> \<not> is_mine g c \<longrightarrow>
          (\<exists>s'. add_knowledge s c (nearby_mines g c) = Some s' \<and> mines s' \<inter> safes s' = {}))"
proof -
  have c: "consistent g s" using assms by (rule reachable_consistent)
  have "\<exists>s'. add_knowledge s c (nearby_mines g c) = Some s' \<and> mines s' \<inter> safes s' = {}"
    if "\<not> is_mine g c" for c
    using consistent_add_knowledge [OF c not_mine_placement [OF that]] consistent_disjoint
    by blast
  with consistent_disjoint [OF c] show ?thesis by blast
qed

text \<open>Claim C7.  In every state of a game with true clues every sentence of the list
  has \<open>0 <= count <= len(cells)\<close>; the same holds inside \<open>add_knowledge\<close>, when the clue is
  recorded and after each pass of the loop.\<close>

theorem counts_within_bounds:
  assumes "reachable g s"
  shows "(\<forall>S \<in> set (knowledge s). 0 \<le> count S \<and> count S \<le> int (card (cells S)))
    \<and> (\<forall>c. in_bounds (board_height g) (board_width g) c \<and> \<not> is_mine g c \<longrightarrow>
         (\<forall>k. \<forall>S \<in> set (knowledge (((\<lambda>s. fst (update_pass s)) ^^ k) (record_clue s c (nearby_mines g c)))).
            0 \<le> count S \<and> count S \<le> int (card (cells S))))"
proof -
  have c: "consistent g s" using assms by (rule reachable_consistent)
  then have 1: "\<forall>S \<in> set (knowledge s). 0 \<le> count S \<and> count S \<le> int (card (cells S))"
    using sound_bounds by (auto simp: consistent_def)
  have 2: "\<forall>S \<in> set (knowledge (((\<lambda>s. fst (update_pass s)) ^^ k) (record_clue s c (nearby_mines g c)))).
            0 \<le> count S \<and> count S \<le> int (card (cells S))"
    if "\<not> is_mine g c" for c k
  proof -
    have "consistent g (((\<lambda>s. fst (update_pass s)) ^^ k) (record_clue s c (nearby_mines g c)))"
    proof (induction k)
      case 0
      show ?case using consistent_record_clue [OF c not_mine_placement [OF that]] by simp
    next
      case (Suc k)
      then show ?case by (simp add: consistent_update_pass)
    qed
    then show ?thesis using sound_bounds by (auto simp: consistent_def)
  qed
  show ?thesis using 1 2 by blast
qed

subsection \<open>Two games of the specification\<close>

text \<open>Scenario A: a 1 x 2 board with its mine at (0,0); the cell (0,1) is revealed.\<close>

definition board_a :: minesweeper where
  "board_a = \<lparr>board_height = 1, board_width = 2, board = [[True, False]]\<rparr>"

definition state_a :: ai where
  "state_a = \<lparr>height = 1, width = 2, moves_made = {(0, 1)}, mines = {(0, 0)},
     safes = {(0, 1)}, knowledge = []\<rparr>"

lemma board_a_clue:
  "in_bounds (board_height board_a) (board_width board_a) (0, 1) \<and> \<not> is_mine board_a (0, 1)"
  by code_simp

lemma play_a:
  "add_knowledge (init_ai (board_height board_a) (board_width board_a)) (0, 1)
     (nearby_mines board_a (0, 1)) = Some state_a"
  by code_simp

lemma well_formed_a: "well_formed board_a"
  by (simp add: well_formed_def board_a_def)

lemma reachable_a: "reachable board_a state_a"
  using reachable.clue [OF reachable.start [OF well_formed_a] _ _ play_a] board_a_clue by simp

text \<open>Scenario B: a 2 x 2 board with its mine at (0,0); the cells (1,1) and (0,1) are
  revealed.\<close>

definition board_b :: minesweeper where
  "board_b = \<lparr>board_height = 2, board_width = 2, board = [[True, False], [False, False]]\<rparr>"

definition state_b1 :: ai where
  "state_b1 = \<lparr>height = 2, width = 2, moves_made = {(1, 1)}, mines = {},
     safes = {(1, 1)}, knowledge = [\<lparr>cells = {(0, 0), (0, 1), (1, 0)}, count = 1\<rparr>]\<rparr>"

definition state_b :: ai where
  "state_b = \<lparr>height = 2, width = 2, moves_made = {(0, 1), (1, 1)}, mines = {},
     safes = {(0, 1), (1, 1)},
     knowledge = [\<lparr>cells = {(0, 0), (1, 0)}, count = 1\<rparr>, \<lparr>cells = {(0, 0), (1, 0)}, count = 1\<rparr>]\<rparr>"

lemma board_b_clues:
  "in_bounds (board_height board_b) (board_width board_b) (1, 1) \<and> \<not> is_mine board_b (1, 1)
   \<and> in_bounds (board_height board_b) (board_width board_b) (0, 1) \<and> \<not> is_mine board_b (0, 1)"
  by code_simp

lemma play_b1:
  "add_knowledge (init_ai (board_height board_b) (board_width board_b)) (1, 1)
     (nearby_mines board_b (1, 1)) = Some state_b1"
  by code_simp

lemma play_b: "add_knowledge state_b1 (0, 1) (nearby_mines board_b (0, 1)) = Some state_b"
  by code_simp

lemma well_formed_b: "well_formed board_b"
  by (simp add: well_formed_def board_b_def)

lemma reachable_b1: "reachable board_b state_b1"
  using reachable.clue [OF reachable.start [OF well_formed_b] _ _ play_b1] board_b_clues by simp

lemma reachable_b: "reachable board_b state_b"
  using reachable.clue [OF reachable_b1 _ _ play_b] board_b_clues by simp

text \<open>Scenario A after its clue, and scenario B before its second clue.\<close>

theorem mines_safes_disjoint_witness:
  "reachable board_a state_a \<and> mines state_a \<inter> safes state_a = {}
   \<and> reachable board_b state_b1
   \<and> in_bounds (board_height board_b) (board_width board_b) (0, 1) \<and> \<not> is_mine board_b (0, 1)
   \<and> (\<exists>s'. add_knowledge state_b1 (0, 1) (nearby_mines board_b (0, 1)) = Some s'
           \<and> mines s' \<inter> safes s' = {})"
proof -
  have 1: "mines state_a \<inter> safes state_a = {}"
    using mines_safes_disjoint [OF reachable_a] by (rule conjunct1)
  have 2: "\<exists>s'. add_knowledge state_b1 (0, 1) (nearby_mines board_b (0, 1)) = Some s'
           \<and> mines s' \<inter> safes s' = {}"
    using mines_safes_disjoint [OF reachable_b1, THEN conjunct2, THEN spec, of "(0, 1)"]
      board_b_clues by simp
  show ?thesis using 1 2 reachable_a reachable_b1 board_b_clues by simp
qed

text \<open>Scenario B after both clues, and when the second clue is recorded.\<close>

theorem counts_within_bounds_witness:
  "reachable board_b state_b
   \<and> \<lparr>cells = {(0, 0), (1, 0)}, count = 1\<rparr> \<in> set (knowledge state_b)
   \<and> 0 \<le> count \<lparr>cells = {(0, 0), (1, 0)}, count = 1\<rparr>
   \<and> count \<lparr>cells = {(0, 0), (1, 0)}, count = 1\<rparr> \<le> int (card (cells \<lparr>cells = {(0, 0), (1, 0)}, count = 1\<rparr>))
   \<and> reachable board_b state_b1
   \<and> in_bounds (board_height board_b) (board_width board_b) (0, 1) \<and> \<not> is_mine board_b (0, 1)
   \<and> \<lparr>cells = {(0, 0), (1, 0)}, count = 1\<rparr>
        \<in> set (knowledge (((\<lambda>s. fst (update_pass s)) ^^ 0) (record_clue state_b1 (0, 1) (nearby_mines board_b (0, 1)))))"
proof -
  have m: "\<lparr>cells = {(0, 0), (1, 0)}, count = 1\<rparr> \<in> set (knowledge state_b)"
    by (simp add: state_b_def)
  have 1: "0 \<le> count \<lparr>cells = {(0, 0), (1, 0)}, count = 1\<rparr>
      \<and> count \<lparr>cells = {(0, 0), (1, 0)}, count = 1\<rparr> \<le> int (card (cells \<lparr>cells = {(0, 0), (1, 0)}, count = 1\<rparr>))"
    using counts_within_bounds [OF reachable_b, THEN conjunct1, THEN bspec, OF m] .
  have r: "record_clue state_b1 (0, 1) (nearby_mines board_b (0, 1)) = state_b"
    by code_simp
  have 2: "\<lparr>cells = {(0, 0), (1, 0)}, count = 1\<rparr>
        \<in> set (knowledge (((\<lambda>s. fst (update_pass s)) ^^ 0) (record_clue state_b1 (0, 1) (nearby_mines board_b (0, 1)))))"
    by (simp add: r m)
  show ?thesis using 1 2 m reachable_b reachable_b1 board_b_clues by simp
qed

text \<open>Claim C5 as stated fails in scenario B: the state is reachable with true clues and
  its list holds the sentence \<open>{(0,0), (1,0)} = 1\<close> twice.\<close>

theorem reachable_duplicate:
  "reachable board_b state_b \<and> \<not> distinct (knowledge state_b)"
  using reachable_b by (simp add: state_b_def)

section \<open>The same clue twice\<close>

text \<open>A state is tidy when no sentence mentions a cell that is already known to be a mine
  or safe (and every sentence has finitely many cells).\<close>

definition tidy :: "ai \<Rightarrow> bool" where
  "tidy s = (\<forall>S \<in> set (knowledge s). finite (cells S) \<and> cells S \<inter> (mines s \<union> safes s) = {})"

text \<open>The clue \<open>(c, n)\<close> is tracked when the cell is played and safe and the sentence the
  clue would give now, if it has cells, is in the list.\<close>

definition tracked :: "cell \<Rightarrow> int \<Rightarrow> ai \<Rightarrow> bool" where
  "tracked c n s =
     (c \<in> moves_made s \<and> c \<in> safes s
      \<and> (unknown_neighbors s c = {} \<or> clue_sentence s c n \<in> set (knowledge s)))"

text \<open>A state is stable when a pass would find nothing to do.\<close>

definition stable :: "ai \<Rightarrow> bool" where
  "stable s =
     (new_mines_of s = {} \<and> new_safes_of s = {} \<and> remove_empty (knowledge s) = knowledge s
      \<and> fst (subtract_all (knowledge s) False) = [])"

lemma tidy_finite_cells: "tidy s \<Longrightarrow> finite_cells (knowledge s)"
  by (simp add: tidy_def finite_cells_def)

lemma tidy_cells_of: "tidy s \<Longrightarrow> cells_of (knowledge s) \<inter> (mines s \<union> safes s) = {}"
  by (auto simp: tidy_def cells_of_def)

lemma tidy_clicked:
  assumes "tidy s"
  shows "tidy (clicked s c)"
  unfolding tidy_def
proof
  fix T assume "T \<in> set (knowledge (clicked s c))"
  then obtain S where S: "S \<in> set (knowledge s)" and T: "T = strike_safes {c} S"
    by (auto simp: clicked_def)
  from assms S have "finite (cells S)" "cells S \<inter> (mines s \<union> safes s) = {}"
    by (auto simp: tidy_def)
  then show "finite (cells T) \<and> cells T \<inter> (mines (clicked s c) \<union> safes (clicked s c)) = {}"
    by (auto simp: T strike_safes_def clicked_def)
qed

lemma cells_clue_sentence: "cells (clue_sentence s c n) = unknown_neighbors s c"
  by (simp add: clue_sentence_def)

lemma count_clue_sentence:
  "count (clue_sentence s c n) = n - int (card (neighbors_of (height s) (width s) c \<inter> mines s))"
  by (simp add: clue_sentence_def)

lemma unknown_neighbors_cong:
  "height s' = height s \<Longrightarrow> width s' = width s \<Longrightarrow> mines s' = mines s \<Longrightarrow>
   insert c (safes s') = insert c (safes s) \<Longrightarrow> unknown_neighbors s' c = unknown_neighbors s c"
  by (simp add: unknown_neighbors_def)

lemma clue_sentence_cong:
  "height s' = height s \<Longrightarrow> width s' = width s \<Longrightarrow> mines s' = mines s \<Longrightarrow>
   insert c (safes s') = insert c (safes s) \<Longrightarrow> clue_sentence s' c n = clue_sentence s c n"
  by (simp add: clue_sentence_def unknown_neighbors_def)

lemma unknown_neighbors_clicked: "unknown_neighbors (clicked s c) c = unknown_neighbors s c"
  by (auto simp: unknown_neighbors_def clicked_def)

lemma clue_sentence_clicked: "clue_sentence (clicked s c) c n = clue_sentence s c n"
  by (rule clue_sentence_cong) (simp_all add: clicked_def)

lemma finite_unknown_neighbors: "finite (unknown_neighbors s c)"
  by (simp add: unknown_neighbors_def finite_neighbors_of)

lemma record_clue_invariant:
  assumes "tidy s"
  shows "tidy (record_clue s c n) \<and> tracked c n (record_clue s c n)"
proof (cases "unknown_neighbors s c = {}")
  case True
  then have r: "record_clue s c n = clicked s c" by (simp add: record_clue_eq)
  have "tracked c n (clicked s c)"
    using True by (simp add: tracked_def unknown_neighbors_clicked) (simp add: clicked_def)
  with tidy_clicked [OF assms] show ?thesis by (simp add: r)
next
  case False
  let ?r = "(clicked s c)\<lparr>knowledge := knowledge (clicked s c) @ [clue_sentence s c n]\<rparr>"
  from False have r: "record_clue s c n = ?r" by (simp add: record_clue_eq)
  have u: "unknown_neighbors ?r c = unknown_neighbors s c"
    by (rule unknown_neighbors_cong) (simp_all add: clicked_def)
  have cs: "clue_sentence ?r c n = clue_sentence s c n"
    by (rule clue_sentence_cong) (simp_all add: clicked_def)
  have 1: "tracked c n ?r"
    unfolding tracked_def cs by (simp add: clicked_def)
  have new: "finite (cells (clue_sentence s c n))
      \<and> cells (clue_sentence s c n) \<inter> (mines ?r \<union> safes ?r) = {}"
    unfolding cells_clue_sentence
  proof
    show "finite (unknown_neighbors s c)" by (rule finite_unknown_neighbors)
    show "unknown_neighbors s c \<inter> (mines ?r \<union> safes ?r) = {}"
      by (auto simp: unknown_neighbors_def clicked_def)
  qed
  have 2: "tidy ?r"
    using tidy_clicked [OF assms, of c] new by (auto simp: tidy_def)
  from 1 2 show ?thesis by (simp only: r)
qed

lemma tidy_new_mines_safes:
  assumes "tidy s"
  shows "new_mines_of s \<inter> safes s = {}" and "new_mines_of s \<inter> mines s = {}"
  using tidy_cells_of [OF assms] new_mines_of_subset [of s]
  by (auto simp: new_mines_of_def)

lemma update_pass_fields:
  assumes "finite_cells (knowledge s)"
  shows "mines (fst (update_pass s)) = mines s \<union> new_mines_of s"
    and "safes (fst (update_pass s)) = safes s \<union> new_safes_of s"
    and "moves_made (fst (update_pass s)) = moves_made s"
    and "height (fst (update_pass s)) = height s"
    and "width (fst (update_pass s)) = width s"
    and "knowledge (fst (update_pass s)) = pruned s @ derived s"
  by (auto simp: update_pass_eq [OF assms] new_mines_of_def new_safes_of_def)

lemma pruned_member:
  "S \<in> set (knowledge s) \<Longrightarrow>
   cells (strike_safes (new_safes_of s) (strike_mines (new_mines_of s) S)) \<noteq> {} \<Longrightarrow>
   strike_safes (new_safes_of s) (strike_mines (new_mines_of s) S) \<in> set (pruned s)"
  by (simp add: pruned_def remove_empty_def)

lemma pruned_cases:
  assumes "T \<in> set (pruned s)"
  obtains S where "S \<in> set (knowledge s)"
    and "T = strike_safes (new_safes_of s) (strike_mines (new_mines_of s) S)"
  using assms by (auto simp: pruned_def remove_empty_def)

lemma tidy_update_pass:
  assumes "tidy s"
  shows "tidy (fst (update_pass s))"
proof -
  let ?s' = "fst (update_pass s)"
  have fin: "finite_cells (knowledge s)" using assms by (rule tidy_finite_cells)
  note f = update_pass_fields [OF fin]
  have pr: "finite (cells T) \<and> cells T \<inter> (mines ?s' \<union> safes ?s') = {}"
    if "T \<in> set (pruned s)" for T
  proof -
    from that obtain S where S: "S \<in> set (knowledge s)"
      and T: "T = strike_safes (new_safes_of s) (strike_mines (new_mines_of s) S)"
      by (rule pruned_cases)
    from assms S have "finite (cells S)" "cells S \<inter> (mines s \<union> safes s) = {}"
      by (auto simp: tidy_def)
    then show ?thesis
      by (auto simp: T strike_safes_def strike_mines_def f)
  qed
  have dr: "finite (cells T) \<and> cells T \<inter> (mines ?s' \<union> safes ?s') = {}"
    if "T \<in> set (derived s)" for T
  proof -
    from that obtain A B where "T = candidate A B" and A: "A \<in> set (pruned s)"
      unfolding derived_def set_subtract_all by blast
    then have "cells T \<subseteq> cells A" by (auto simp: candidate_def)
    with pr [OF A] show ?thesis by (auto intro: finite_subset)
  qed
  show ?thesis
    unfolding tidy_def f(6) using pr dr by auto
qed

lemma tracked_update_pass:
  assumes t: "tidy s" and tr: "tracked c n s"
  shows "tracked c n (fst (update_pass s))"
proof -
  let ?s' = "fst (update_pass s)"
  let ?N = "neighbors_of (height s) (width s) c"
  let ?Dm = "new_mines_of s" and ?Ds = "new_safes_of s"
  have fin: "finite_cells (knowledge s)" using t by (rule tidy_finite_cells)
  note f = update_pass_fields [OF fin]
  from tr have cm: "c \<in> moves_made s" and cs: "c \<in> safes s" by (simp_all add: tracked_def)
  have u': "unknown_neighbors ?s' c = unknown_neighbors s c - ?Dm - ?Ds"
    by (auto simp: unknown_neighbors_def f)
  show ?thesis
  proof (cases "unknown_neighbors ?s' c = {}")
    case True
    with cm cs show ?thesis by (simp add: tracked_def f)
  next
    case False
    with u' have "unknown_neighbors s c \<noteq> {}" by auto
    with tr have T: "clue_sentence s c n \<in> set (knowledge s)" by (simp add: tracked_def)
    let ?T' = "strike_safes ?Ds (strike_mines ?Dm (clue_sentence s c n))"
    have finN: "finite ?N" by (rule finite_neighbors_of)
    have d1: "unknown_neighbors s c \<inter> ?Dm = ?N \<inter> ?Dm"
      using tidy_new_mines_safes [OF t] cs
      by (auto simp: unknown_neighbors_def)
    have d2: "?N \<inter> (mines s \<union> ?Dm) = (?N \<inter> mines s) \<union> (?N \<inter> ?Dm)" by auto
    have d3: "(?N \<inter> mines s) \<inter> (?N \<inter> ?Dm) = {}"
      using tidy_new_mines_safes(2) [OF t] by auto
    have "card (?N \<inter> (mines s \<union> ?Dm)) = card (?N \<inter> mines s) + card (?N \<inter> ?Dm)"
      unfolding d2 using finN d3 by (intro card_Un_disjoint) auto
    then have cnt: "count ?T' = n - int (card (?N \<inter> mines ?s'))"
      by (simp add: strike_safes_def strike_mines_def cells_clue_sentence count_clue_sentence d1 f)
    have cel: "cells ?T' = unknown_neighbors ?s' c"
      by (simp add: strike_safes_def strike_mines_def cells_clue_sentence u')
    have eq: "?T' = clue_sentence ?s' c n"
    proof (rule sentence_eqI)
      show "cells ?T' = cells (clue_sentence ?s' c n)"
        by (simp only: cel cells_clue_sentence)
      show "count ?T' = count (clue_sentence ?s' c n)"
        by (simp only: cnt count_clue_sentence f)
    qed
    have "cells ?T' \<noteq> {}" using False cel by simp
    with T have "?T' \<in> set (pruned s)" by (rule pruned_member)
    then have "clue_sentence ?s' c n \<in> set (knowledge ?s')" by (simp add: eq f)
    with cm cs show ?thesis by (simp add: tracked_def f)
  qed
qed

lemma known_mines_no_cells: "cells S = {} \<Longrightarrow> known_mines S = {}"
  by (simp add: known_mines_def)

lemma known_safes_no_cells: "cells S = {} \<Longrightarrow> known_safes S = {}"
  by (simp add: known_safes_def)

lemma all_known_mines_remove_empty: "all_known_mines (remove_empty K) = all_known_mines K"
  by (auto simp: all_known_mines_def remove_empty_def known_mines_no_cells)

lemma all_known_safes_remove_empty: "all_known_safes (remove_empty K) = all_known_safes K"
  by (auto simp: all_known_safes_def remove_empty_def known_safes_no_cells)

lemma remove_empty_idem: "remove_empty (remove_empty K) = remove_empty K"
  by (simp add: remove_empty_def)

lemma stable_after_quiet_pass:
  assumes fin: "finite_cells (knowledge s0)" and p: "update_pass s0 = (y, False)"
  shows "stable y"
proof -
  from p have nm: "new_mines_of s0 = {}" and ns: "new_safes_of s0 = {}" and d: "derived s0 = []"
    by (simp_all add: update_pass_eq [OF fin])
  have pr: "pruned s0 = remove_empty (knowledge s0)" using nm ns by (rule pruned_unchanged)
  from p have y: "y = fst (update_pass s0)" by simp
  note f = update_pass_fields [OF fin]
  have k: "knowledge y = remove_empty (knowledge s0)" by (simp add: y f pr d)
  have m: "mines y = mines s0" and sf: "safes y = safes s0" by (simp_all add: y f nm ns)
  have 1: "new_mines_of y = {}"
    using nm by (simp add: new_mines_of_def k m all_known_mines_remove_empty)
  have 2: "new_safes_of y = {}"
    using ns by (simp add: new_safes_of_def k sf all_known_safes_remove_empty)
  have 3: "remove_empty (knowledge y) = knowledge y" by (simp add: k remove_empty_idem)
  have 4: "fst (subtract_all (knowledge y) False) = []"
    using d by (simp add: k derived_def pr)
  from 1 2 3 4 show ?thesis by (simp add: stable_def)
qed

lemma stable_update_pass:
  assumes fin: "finite_cells (knowledge s)" and st: "stable s"
  shows "update_pass s = (s, False)"
proof -
  from st have nm: "new_mines_of s = {}" and ns: "new_safes_of s = {}"
    and re: "remove_empty (knowledge s) = knowledge s"
    and d: "fst (subtract_all (knowledge s) False) = []"
    by (simp_all add: stable_def)
  have pr: "pruned s = knowledge s" using pruned_unchanged [OF nm ns] re by simp
  have dr: "derived s = []" by (simp add: derived_def pr d)
  from nm have m: "mines s \<union> all_known_mines (knowledge s) = mines s"
    by (auto simp: new_mines_of_def)
  from ns have sf: "safes s \<union> all_known_safes (knowledge s) = safes s"
    by (auto simp: new_safes_of_def)
  show ?thesis
    by (simp add: update_pass_eq [OF fin] nm ns pr dr m sf)
qed

lemma stable_update_knowledge:
  assumes "finite_cells (knowledge s)" "stable s"
  shows "update_knowledge s = Some s"
  by (subst update_knowledge.simps) (simp add: stable_update_pass [OF assms])

lemma stable_repeat:
  assumes st: "stable s" and T: "T \<in> set (knowledge s)"
  shows "stable (s\<lparr>knowledge := knowledge s @ [T]\<rparr>)"
proof -
  let ?K = "knowledge s"
  from st have nm: "new_mines_of s = {}" and ns: "new_safes_of s = {}"
    and re: "remove_empty ?K = ?K" and d: "fst (subtract_all ?K False) = []"
    by (simp_all add: stable_def)
  have set_eq: "set (?K @ [T]) = set ?K" using T by auto
  have 1: "all_known_mines (?K @ [T]) = all_known_mines ?K"
    by (simp only: all_known_mines_def set_eq)
  have 2: "all_known_safes (?K @ [T]) = all_known_safes ?K"
    by (simp only: all_known_safes_def set_eq)
  from T re have "T \<in> set (remove_empty ?K)" by simp
  then have "cells T \<noteq> {}" by (simp add: remove_empty_def)
  with re have 3: "remove_empty (?K @ [T]) = ?K @ [T]" by (simp add: remove_empty_def)
  have "set (fst (subtract_all (?K @ [T]) False)) = set (fst (subtract_all ?K False))"
    by (simp only: set_subtract_all set_eq)
  with d have 4: "fst (subtract_all (?K @ [T]) False) = []" by simp
  show ?thesis
    using nm ns 3 4 by (simp add: stable_def new_mines_of_def new_safes_of_def 1 2)
qed

lemma add_knowledge_invariant:
  assumes t: "tidy s" and r: "add_knowledge s c n = Some s1"
  shows "tidy s1 \<and> tracked c n s1 \<and> stable s1"
proof -
  let ?Inv = "\<lambda>s. tidy s \<and> tracked c n s"
  from r have u: "update_knowledge (record_clue s c n) = Some s1" by (simp add: add_knowledge_def)
  have i: "?Inv (record_clue s c n)" using t by (rule record_clue_invariant)
  have p: "?Inv (fst (update_pass s))" if "?Inv s" for s
    using that tidy_update_pass tracked_update_pass by blast
  from update_knowledge_rule [of _ _ ?Inv, OF u i p]
  obtain s0 where inv1: "tidy s1" "tracked c n s1" and inv0: "tidy s0"
    and q: "update_pass s0 = (s1, False)" by blast
  have "stable s1" using tidy_finite_cells [OF inv0] q by (rule stable_after_quiet_pass)
  with inv1 show ?thesis by simp
qed

lemma clicked_again:
  assumes t: "tidy s" and cm: "c \<in> moves_made s" and cs: "c \<in> safes s"
  shows "clicked s c = s"
proof -
  have "strike_safes {c} S = S" if "S \<in> set (knowledge s)" for S
  proof -
    from t that cs have "c \<notin> cells S" by (auto simp: tidy_def)
    then show ?thesis by (simp add: strike_safes_def)
  qed
  then have "map (strike_safes {c}) (knowledge s) = knowledge s" by (simp add: map_idI)
  then show ?thesis
    using cm cs by (simp add: clicked_def insert_absorb)
qed

text \<open>Claim C6, as amended.  From a tidy state, when \<open>add_knowledge(cell, count)\<close> has
  returned, the same call again returns and leaves \<open>moves_made\<close>, \<open>mines\<close>, \<open>safes\<close> and the
  set of sentences as they are; the list itself is unchanged or has one more copy of a
  sentence it already holds (the sentence of the clue).\<close>

theorem add_knowledge_twice:
  assumes t: "tidy s" and r: "add_knowledge s c n = Some s1"
  shows "\<exists>s2. add_knowledge s1 c n = Some s2
     \<and> moves_made s2 = moves_made s1 \<and> mines s2 = mines s1 \<and> safes s2 = safes s1
     \<and> height s2 = height s1 \<and> width s2 = width s1
     \<and> set (knowledge s2) = set (knowledge s1)
     \<and> (knowledge s2 = knowledge s1 \<or> (\<exists>T \<in> set (knowledge s1). knowledge s2 = knowledge s1 @ [T]))"
proof -
  from add_knowledge_invariant [OF t r]
  have t1: "tidy s1" and tr: "tracked c n s1" and st: "stable s1" by simp_all
  from tr have cm: "c \<in> moves_made s1" and cs: "c \<in> safes s1" by (simp_all add: tracked_def)
  have cl: "clicked s1 c = s1" using t1 cm cs by (rule clicked_again)
  have fin: "finite_cells (knowledge s1)" using t1 by (rule tidy_finite_cells)
  show ?thesis
  proof (cases "unknown_neighbors s1 c = {}")
    case True
    then have "record_clue s1 c n = s1" by (simp add: record_clue_eq cl)
    then have "add_knowledge s1 c n = Some s1"
      by (simp add: add_knowledge_def stable_update_knowledge [OF fin st])
    then show ?thesis by simp
  next
    case False
    let ?T = "clue_sentence s1 c n"
    let ?s2 = "s1\<lparr>knowledge := knowledge s1 @ [?T]\<rparr>"
    from False tr have T: "?T \<in> set (knowledge s1)" by (simp add: tracked_def)
    from False have rc: "record_clue s1 c n = ?s2" by (simp add: record_clue_eq cl)
    have st2: "stable ?s2" using st T by (rule stable_repeat)
    have fin2: "finite_cells (knowledge ?s2)"
      using fin T by (auto simp: finite_cells_def)
    have "add_knowledge s1 c n = Some ?s2"
      by (simp only: add_knowledge_def rc stable_update_knowledge [OF fin2 st2])
    moreover have "set (knowledge ?s2) = set (knowledge s1)" using T by auto
    moreover have "\<exists>T \<in> set (knowledge s1). knowledge ?s2 = knowledge s1 @ [T]"
      using T by auto
    ultimately show ?thesis by simp
  qed
qed

text \<open>Every state of a game is tidy.\<close>

lemma tidy_init: "tidy (init_ai h w)"
  by (simp add: tidy_def init_ai_def)

lemma reachable_tidy: "reachable g s \<Longrightarrow> tidy s"
proof (induction rule: reachable.induct)
  case start
  show ?case by (rule tidy_init)
next
  case (clue s c s')
  from add_knowledge_invariant [OF clue.IH clue.hyps(4)] show ?case by simp
qed

text \<open>The first clue of scenario B, given once.\<close>

lemma first_clue_b: "add_knowledge (init_ai 2 2) (1, 1) 1 = Some state_b1"
  by code_simp

theorem add_knowledge_twice_witness:
  "tidy (init_ai 2 2) \<and> add_knowledge (init_ai 2 2) (1, 1) 1 = Some state_b1
   \<and> (\<exists>s2. add_knowledge state_b1 (1, 1) 1 = Some s2
         \<and> moves_made s2 = moves_made state_b1 \<and> mines s2 = mines state_b1
         \<and> safes s2 = safes state_b1 \<and> set (knowledge s2) = set (knowledge state_b1))"
proof -
  have t: "tidy (init_ai 2 2)" by (rule tidy_init)
  from add_knowledge_twice [OF t first_clue_b]
  have "\<exists>s2. add_knowledge state_b1 (1, 1) 1 = Some s2
         \<and> moves_made s2 = moves_made state_b1 \<and> mines s2 = mines state_b1
         \<and> safes s2 = safes state_b1 \<and> set (knowledge s2) = set (knowledge state_b1)"
    by blast
  with t first_clue_b show ?thesis by simp
qed

text \<open>The first clue of scenario B given twice, and a state that is not tidy: (0,1) is
  safe and the only cell of a sentence with count 1.\<close>

definition state_b1_twice :: ai where
  "state_b1_twice = \<lparr>height = 2, width = 2, moves_made = {(1, 1)}, mines = {},
     safes = {(1, 1)},
     knowledge = [\<lparr>cells = {(0, 0), (0, 1), (1, 0)}, count = 1\<rparr>,
                  \<lparr>cells = {(0, 0), (0, 1), (1, 0)}, count = 1\<rparr>]\<rparr>"

definition untidy :: ai where
  "untidy = \<lparr>height = 2, width = 2, moves_made = {}, mines = {}, safes = {(0, 1)},
     knowledge = [\<lparr>cells = {(0, 1)}, count = 1\<rparr>]\<rparr>"

definition untidy_once :: ai where
  "untidy_once = \<lparr>height = 2, width = 2, moves_made = {(0, 0)}, mines = {(0, 1)},
     safes = {(0, 0), (0, 1)}, knowledge = [\<lparr>cells = {(1, 0), (1, 1)}, count = 1\<rparr>]\<rparr>"

definition untidy_twice :: ai where
  "untidy_twice = \<lparr>height = 2, width = 2, moves_made = {(0, 0)}, mines = {(0, 1)},
     safes = {(0, 0), (0, 1), (1, 0), (1, 1)}, knowledge = []\<rparr>"

lemma second_clue_b: "add_knowledge state_b1 (1, 1) 1 = Some state_b1_twice"
  by code_simp

lemma untidy_first: "add_knowledge untidy (0, 0) 1 = Some untidy_once"
  by code_simp

lemma untidy_second: "add_knowledge untidy_once (0, 0) 1 = Some untidy_twice"
  by code_simp

text \<open>Claim C6 as stated fails.  Given twice, the first clue of scenario B leaves its
  sentence twice in the list.  And in a state that is not tidy (here (0,1) is safe and
  the only cell of a sentence with count 1) the second call changes \<open>safes\<close> too.\<close>

theorem add_knowledge_twice_differs:
  "add_knowledge (init_ai 2 2) (1, 1) 1 = Some state_b1
   \<and> Option.bind (add_knowledge (init_ai 2 2) (1, 1) 1) (\<lambda>s. add_knowledge s (1, 1) 1)
        = Some state_b1_twice
   \<and> knowledge state_b1_twice \<noteq> knowledge state_b1
   \<and> add_knowledge untidy (0, 0) 1 = Some untidy_once
   \<and> Option.bind (add_knowledge untidy (0, 0) 1) (\<lambda>s. add_knowledge s (0, 0) 1)
        = Some untidy_twice
   \<and> safes untidy_twice \<noteq> safes untidy_once"
proof -
  have "knowledge state_b1_twice \<noteq> knowledge state_b1"
    by (simp add: state_b1_twice_def state_b1_def)
  moreover have "safes untidy_twice \<noteq> safes untidy_once"
  proof -
    have "(1, 1) \<in> safes untidy_twice" and "(1, 1) \<notin> safes untidy_once"
      by (simp_all add: untidy_twice_def untidy_once_def)
    then show ?thesis by metis
  qed
  ultimately show ?thesis
    by (simp add: first_clue_b second_clue_b untidy_first untidy_second)
qed

end
